theory Spec2Isabelle
  imports Complex_Main
begin

section \<open>Numbers\<close>

text \<open>
  A JavaScript \<open>number\<close> and a C++ \<open>double\<close> are both IEEE 754 binary64 values. They are
  modelled as the reals extended with the three special values the estimators can produce:
  the two infinities and not-a-number. Finite arithmetic is exact (rounding and overflow of
  finite values are not modelled) and the two zeros are identified; every divisor in the
  modelled code is a count, a product of counts or an absolute value, so a negative zero
  never reaches a division.
\<close>

datatype number = Fin real | PInf | NInf | NaN

fun n_neg :: "number \<Rightarrow> number" where
  "n_neg (Fin a) = Fin (- a)"
| "n_neg PInf = NInf"
| "n_neg NInf = PInf"
| "n_neg NaN = NaN"


fun n_add :: "number \<Rightarrow> number \<Rightarrow> number" where
  "n_add (Fin a) (Fin b) = Fin (a + b)"
| "n_add (Fin a) PInf = PInf"
| "n_add (Fin a) NInf = NInf"
| "n_add PInf (Fin b) = PInf"
| "n_add PInf PInf = PInf"
| "n_add PInf NInf = NaN"
| "n_add NInf (Fin b) = NInf"
| "n_add NInf PInf = NaN"
| "n_add NInf NInf = NInf"
| "n_add NaN y = NaN"
| "n_add x NaN = NaN"

definition n_sub :: "number \<Rightarrow> number \<Rightarrow> number" where
  "n_sub x y = n_add x (n_neg y)"

fun n_mul :: "number \<Rightarrow> number \<Rightarrow> number" where
  "n_mul (Fin a) (Fin b) = Fin (a * b)"
| "n_mul (Fin a) PInf = (if a = 0 then NaN else if 0 < a then PInf else NInf)"
| "n_mul (Fin a) NInf = (if a = 0 then NaN else if 0 < a then NInf else PInf)"
| "n_mul PInf (Fin b) = (if b = 0 then NaN else if 0 < b then PInf else NInf)"
| "n_mul NInf (Fin b) = (if b = 0 then NaN else if 0 < b then NInf else PInf)"
| "n_mul PInf PInf = PInf"
| "n_mul PInf NInf = NInf"
| "n_mul NInf PInf = NInf"
| "n_mul NInf NInf = PInf"
| "n_mul NaN y = NaN"
| "n_mul x NaN = NaN"

fun n_div :: "number \<Rightarrow> number \<Rightarrow> number" where
  "n_div (Fin a) (Fin b) =
     (if b = 0 then (if a = 0 then NaN else if 0 < a then PInf else NInf)
      else Fin (a / b))"
| "n_div (Fin a) PInf = Fin 0"
| "n_div (Fin a) NInf = Fin 0"
| "n_div PInf (Fin b) = (if 0 \<le> b then PInf else NInf)"
| "n_div NInf (Fin b) = (if 0 \<le> b then NInf else PInf)"
| "n_div PInf PInf = NaN"
| "n_div PInf NInf = NaN"
| "n_div NInf PInf = NaN"
| "n_div NInf NInf = NaN"
| "n_div NaN y = NaN"
| "n_div x NaN = NaN"

text \<open>Comparisons with not-a-number are false, as in IEEE 754.\<close>

fun n_lt :: "number \<Rightarrow> number \<Rightarrow> bool" where
  "n_lt (Fin a) (Fin b) = (a < b)"
| "n_lt (Fin a) PInf = True"
| "n_lt NInf (Fin b) = True"
| "n_lt NInf PInf = True"
| "n_lt x y = False"

definition n_gt :: "number \<Rightarrow> number \<Rightarrow> bool" where
  "n_gt x y = n_lt y x"

fun n_le :: "number \<Rightarrow> number \<Rightarrow> bool" where
  "n_le NaN y = False"
| "n_le x NaN = False"
| "n_le x y = (\<not> n_lt y x)"


definition of_count :: "nat \<Rightarrow> number" where
  "of_count k = Fin (real k)"

section \<open>Error metrics (utils/errorMetrics.ts)\<close>






section \<open>Graph text format (utils/graphParser)\<close>

text \<open>
  The text is taken as a list of 8-bit characters. White space is the ASCII white space that
  \<open>String.prototype.trim\<close> and the regular expression class \<open>\s\<close> both accept; the
  non-ASCII white space of Unicode is not modelled.
\<close>

record edge =
  source :: nat
  target :: nat

text \<open>
  \<open>Graph\<close> of types/graph.ts: the node count and the arcs. Its constant \<open>isDirected\<close> and the
  two optional cached fields, which no modelled function reads, are left out.
\<close>

record Graph =
  nodes :: nat
  edges :: "edge list"

record ParsedGraph = Graph +
  wasOneBased :: bool
  originalMaxNodeId :: nat

datatype GraphParseError = GraphParseError string "nat option"

definition is_space :: "char \<Rightarrow> bool" where
  "is_space c = (c \<in> set [CHR 0x09, CHR 0x0A, CHR 0x0B, CHR 0x0C, CHR 0x0D, CHR 0x20])"

definition is_digit :: "char \<Rightarrow> bool" where
  "is_digit c = (48 \<le> (of_char c :: nat) \<and> (of_char c :: nat) \<le> 57)"

definition digit_value :: "char \<Rightarrow> nat" where
  "digit_value c = of_char c - 48"

definition digits_value :: "string \<Rightarrow> nat" where
  "digits_value ds = foldl (\<lambda>acc c. 10 * acc + digit_value c) 0 ds"

text \<open>\<open>content.split('\n')\<close>: one more piece than there are line feeds.\<close>

fun split_nl :: "string \<Rightarrow> string list" where
  "split_nl [] = [[]]"
| "split_nl (c # cs) =
     (if c = CHR 0x0A then [] # split_nl cs
      else (case split_nl cs of [] \<Rightarrow> [[c]] | l # ls \<Rightarrow> (c # l) # ls))"

definition trim :: "string \<Rightarrow> string" where
  "trim line = rev (dropWhile is_space (rev (dropWhile is_space line)))"

text \<open>
  \<open>line.split(/\s+/)\<close>: the pieces between maximal runs of white space, an empty piece
  before a leading run and after a trailing one. \<open>cur\<close> is the current piece reversed,
  \<open>insep\<close> says that the previous character was white space.
\<close>

fun split_ws_from :: "string \<Rightarrow> bool \<Rightarrow> string \<Rightarrow> string list" where
  "split_ws_from cur insep [] = [rev cur]"
| "split_ws_from cur insep (c # cs) =
     (if is_space c then
        (if insep then split_ws_from cur True cs else rev cur # split_ws_from [] True cs)
      else split_ws_from (c # cur) False cs)"

definition split_ws :: "string \<Rightarrow> string list" where
  "split_ws line = split_ws_from [] False line"

text \<open>
  \<open>parseInt(str, 10)\<close>: leading white space is skipped, one sign is accepted, the longest
  prefix of decimal digits is read and the rest is ignored; without a digit the result is
  not-a-number, here \<open>None\<close>. The loss of precision above \<open>2^53\<close> is not modelled.
\<close>

definition parseInt :: "string \<Rightarrow> int option" where
  "parseInt str =
     (let s1 = dropWhile is_space str;
          neg = (case s1 of [] \<Rightarrow> False | c # _ \<Rightarrow> c = CHR ''-'');
          s2 = (case s1 of [] \<Rightarrow> [] | c # r \<Rightarrow> if c = CHR ''-'' \<or> c = CHR ''+'' then r else s1);
          ds = takeWhile is_digit s2
      in if ds = [] then None
         else Some (if neg then - int (digits_value ds) else int (digits_value ds)))"

text \<open>Decimal rendering of a number inside a template string.\<close>

fun show_nat :: "nat \<Rightarrow> string" where
  "show_nat k = (if k < 10 then [char_of (48 + k)] else show_nat (k div 10) @ [char_of (48 + k mod 10)])"

text \<open>
  The local variables of \<open>parseEdgeList\<close>. \<open>minNodeId\<close> and \<open>maxNodeId\<close> start at plus and
  minus infinity, here \<open>None\<close>.
\<close>

record parse_state =
  edges_acc :: "edge list"
  declaredNodeCount :: "int option"
  declaredEdgeCount :: "int option"
  minNodeId :: "nat option"
  maxNodeId :: "nat option"
  lineNumber :: nat
  firstDataLineProcessed :: bool

definition initial_parse_state :: parse_state where
  "initial_parse_state =
     \<lparr>edges_acc = [], declaredNodeCount = None, declaredEdgeCount = None,
      minNodeId = None, maxNodeId = None, lineNumber = 0, firstDataLineProcessed = False\<rparr>"

definition startsWith_hash :: "string \<Rightarrow> bool" where
  "startsWith_hash line = (case line of [] \<Rightarrow> False | c # _ \<Rightarrow> c = CHR ''#'')"

text \<open>The test that makes a line the metadata line; it yields the two declared counts.\<close>

definition metadata_of :: "bool \<Rightarrow> string list \<Rightarrow> (int \<times> int) option" where
  "metadata_of firstDone parts =
     (if \<not> firstDone \<and> length parts = 2 then
        (case (parseInt (parts ! 0), parseInt (parts ! 1)) of
           (Some first, Some second) \<Rightarrow>
             if 0 < first \<and> 0 < second then Some (first, second) else None
         | _ \<Rightarrow> None)
      else None)"

definition min_id :: "nat option \<Rightarrow> nat \<Rightarrow> nat \<Rightarrow> nat option" where
  "min_id m a b = (case m of None \<Rightarrow> Some (min a b) | Some c \<Rightarrow> Some (min c (min a b)))"

definition max_id :: "nat option \<Rightarrow> nat \<Rightarrow> nat \<Rightarrow> nat option" where
  "max_id m a b = (case m of None \<Rightarrow> Some (max a b) | Some c \<Rightarrow> Some (max c (max a b)))"

text \<open>One iteration of the loop over the trimmed lines.\<close>

definition parse_line :: "parse_state \<Rightarrow> string \<Rightarrow> GraphParseError + parse_state" where
  "parse_line st0 line =
     (let lno = lineNumber st0 + 1; st = st0\<lparr>lineNumber := lno\<rparr> in
      if line = [] then Inr st
      else if startsWith_hash line then Inr st
      else
        (let parts = split_ws line in
         case metadata_of (firstDataLineProcessed st) parts of
           Some (first, second) \<Rightarrow>
             Inr (st\<lparr>declaredNodeCount := Some first, declaredEdgeCount := Some second,
                     firstDataLineProcessed := True\<rparr>)
         | None \<Rightarrow>
             (let st1 = st\<lparr>firstDataLineProcessed := True\<rparr> in
              if length parts \<noteq> 2 then
                Inl (GraphParseError
                      (''Invalid edge format at line '' @ show_nat lno
                         @ '': expected 2 numbers, got '' @ show_nat (length parts))
                      (Some lno))
              else
                (case (parseInt (parts ! 0), parseInt (parts ! 1)) of
                   (Some src, Some tgt) \<Rightarrow>
                     if src < 0 \<or> tgt < 0 then
                       Inl (GraphParseError
                             (''Invalid node IDs at line '' @ show_nat lno
                                @ '': negative IDs not allowed'')
                             (Some lno))
                     else
                       Inr (st1\<lparr>edges_acc :=
                                  edges_acc st1
                                    @ [\<lparr>source = nat src, target = nat tgt\<rparr>]
                                    @ (if src \<noteq> tgt
                                       then [\<lparr>source = nat tgt, target = nat src\<rparr>] else []),
                                minNodeId := min_id (minNodeId st1) (nat src) (nat tgt),
                                maxNodeId := max_id (maxNodeId st1) (nat src) (nat tgt)\<rparr>)
                 | _ \<Rightarrow>
                     Inl (GraphParseError
                           (''Invalid node IDs at line '' @ show_nat lno
                              @ '': could not parse as integers'')
                           (Some lno))))))"

fun parse_lines :: "parse_state \<Rightarrow> string list \<Rightarrow> GraphParseError + parse_state" where
  "parse_lines st [] = Inr st"
| "parse_lines st (line # rest) =
     (case parse_line st line of Inl e \<Rightarrow> Inl e | Inr st' \<Rightarrow> parse_lines st' rest)"

text \<open>
  What follows the loop: the empty-graph check and the change to 0-based ids. Past the
  check at least one edge was read, so \<open>maxNodeId\<close> is a node id there.
\<close>

definition parse_finish :: "parse_state \<Rightarrow> GraphParseError + ParsedGraph" where
  "parse_finish st =
     (if length (edges_acc st) = 0 then
        Inl (GraphParseError ''No edges found in the file'' None)
      else
        (let one = (minNodeId st = Some 1);
             es = (if one
                   then map (\<lambda>e. \<lparr>source = source e - 1, target = target e - 1\<rparr>) (edges_acc st)
                   else edges_acc st);
             top = (case maxNodeId st of None \<Rightarrow> 0 | Some m \<Rightarrow> m);
             mx = (if one then top - 1 else top)
         in Inr \<lparr>nodes = mx + 1, edges = es, wasOneBased = one,
                 originalMaxNodeId = (if one then mx + 1 else mx)\<rparr>))"

text \<open>A trimmed line the loop skips: blank, or a comment.\<close>

definition is_skipped :: "string \<Rightarrow> bool" where
  "is_skipped line = (line = [] \<or> startsWith_hash line)"

text \<open>A token that is a positive integer written in decimal digits.\<close>

definition positive_integer :: "string \<Rightarrow> bool" where
  "positive_integer d = (d \<noteq> [] \<and> list_all is_digit d \<and> 0 < digits_value d)"

text \<open>
  The state of the loop right after a metadata line \<open>d1 d2\<close> at line \<open>lno\<close> that only
  skipped lines precede: the two declared counts are set, and no edge has been read.
\<close>

definition after_metadata :: "nat \<Rightarrow> string \<Rightarrow> string \<Rightarrow> parse_state" where
  "after_metadata lno d1 d2 =
     \<lparr>edges_acc = [], declaredNodeCount = Some (int (digits_value d1)),
      declaredEdgeCount = Some (int (digits_value d2)),
      minNodeId = None, maxNodeId = None, lineNumber = lno, firstDataLineProcessed = True\<rparr>"

definition lines_of :: "string \<Rightarrow> string list" where
  "lines_of content = map trim (split_nl content)"

definition parseEdgeList :: "string \<Rightarrow> GraphParseError + ParsedGraph" where
  "parseEdgeList content =
     (case parse_lines initial_parse_state (lines_of content) of
        Inl e \<Rightarrow> Inl e
      | Inr st \<Rightarrow> parse_finish st)"

section \<open>The estimators in JavaScript (algorithms/pushVSp, algorithms/abwalkVSp)\<close>

text \<open>
  Node ids and the number of walks are natural numbers. Neither estimator checks its
  arguments, so the only error either can raise is the \<open>TypeError\<close> of the JavaScript
  runtime, when a property of \<open>undefined\<close> is read. A run of an estimator that does not
  return and does not throw has the value \<open>None\<close>.
\<close>

datatype js_error = TypeError

text \<open>
  A \<open>Float64Array\<close>: reading outside the array gives \<open>undefined\<close>, which every use below
  turns into not-a-number, and writing outside the array does nothing.
\<close>

definition f64_get :: "number list \<Rightarrow> nat \<Rightarrow> number" where
  "f64_get a i = (if i < length a then a ! i else NaN)"

definition f64_set :: "number list \<Rightarrow> nat \<Rightarrow> number \<Rightarrow> number list" where
  "f64_set a i x = (if i < length a then a[i := x] else a)"

text \<open>
  The array \<open>degree\<close> holds counts; it is kept as a list of natural numbers and read as a
  number. \<open>degree[edge.source]++\<close> outside the array does nothing.
\<close>

definition degree_get :: "nat list \<Rightarrow> nat \<Rightarrow> number" where
  "degree_get degree u = (if u < length degree then of_count (degree ! u) else NaN)"

definition count_degrees :: "nat \<Rightarrow> edge list \<Rightarrow> nat list" where
  "count_degrees n es =
     foldl (\<lambda>degree e. if source e < length degree
                         then degree[source e := degree ! source e + 1] else degree)
           (replicate n 0) es"

text \<open>
  \<open>adjacencyList[edge.source].push(edge.target)\<close>: for a source outside the list the row is
  \<open>undefined\<close> and the call throws.
\<close>

fun build_adjacency :: "nat list list \<Rightarrow> edge list \<Rightarrow> js_error + nat list list" where
  "build_adjacency adjacencyList [] = Inr adjacencyList"
| "build_adjacency adjacencyList (e # es) =
     (if source e < length adjacencyList
      then build_adjacency
             (adjacencyList[source e := adjacencyList ! source e @ [target e]]) es
      else Inl TypeError)"

subsection \<open>pushVSpJS\<close>

text \<open>
  The variables of one push phase: the residual and settled arrays (\<open>rs\<close>, \<open>ps\<close> in the
  first phase, \<open>rt\<close>, \<open>pt\<close> in the second), the queue with its membership set, the push
  counter, and the values handed to \<open>onProgress\<close> so far.
\<close>

record push_state =
  r_vec :: "number list"
  p_vec :: "number list"
  queue :: "nat list"
  inQueue :: "nat set"
  pushCount :: nat
  emitted :: "number list"

text \<open>The body of the loop over the neighbours of \<open>u\<close>, for the neighbour \<open>nei\<close>.\<close>

definition push_neighbor ::
  "nat list \<Rightarrow> nat \<Rightarrow> number \<Rightarrow> nat \<Rightarrow> push_state \<Rightarrow> nat \<Rightarrow> push_state" where
  "push_neighbor degree v rmax u st nei =
     (if nei = v then st
      else
        (let st1 = st\<lparr>r_vec := f64_set (r_vec st) nei
                      (n_add (f64_get (r_vec st) nei)
                             (n_div (f64_get (r_vec st) u) (degree_get degree u)))\<rparr>
         in if nei \<notin> inQueue st1
               \<and> n_gt (f64_get (r_vec st1) nei) (n_mul (degree_get degree nei) rmax)
            then st1\<lparr>queue := queue st1 @ [nei], inQueue := insert nei (inQueue st1)\<rparr>
            else st1))"

text \<open>
  One iteration of the \<open>while\<close> loop, for the head \<open>u\<close> of the queue and the rest \<open>rest\<close>.
  \<open>pct\<close> is the value reported every 100 pushes (25 in the first phase, 75 in the second).
  A thrown error comes with the progress reported before it.
\<close>

definition push_iteration ::
  "nat list list \<Rightarrow> nat list \<Rightarrow> nat \<Rightarrow> number \<Rightarrow> number \<Rightarrow> push_state \<Rightarrow> nat \<Rightarrow> nat list
     \<Rightarrow> (js_error \<times> number list) + push_state" where
  "push_iteration adjacencyList degree v rmax pct st u rest =
     (let st1 = st\<lparr>queue := rest, inQueue := inQueue st - {u}\<rparr>;
          st2 = st1\<lparr>p_vec := f64_set (p_vec st1) u
                       (n_add (f64_get (p_vec st1) u) (f64_get (r_vec st1) u))\<rparr>
      in if u < length adjacencyList then
           (let st3 = foldl (push_neighbor degree v rmax u) st2 (adjacencyList ! u);
                st4 = st3\<lparr>r_vec := f64_set (r_vec st3) u (Fin 0),
                          pushCount := pushCount st3 + 1\<rparr>
            in Inr (if pushCount st4 mod 100 = 0
                    then st4\<lparr>emitted := emitted st4 @ [pct]\<rparr> else st4))
         else Inl (TypeError, emitted st2))"

partial_function (option) push_loop ::
  "nat list list \<Rightarrow> nat list \<Rightarrow> nat \<Rightarrow> number \<Rightarrow> number \<Rightarrow> push_state
     \<Rightarrow> ((js_error \<times> number list) + push_state) option" where
  "push_loop adjacencyList degree v rmax pct st =
     (case queue st of
        [] \<Rightarrow> Some (Inr st)
      | u # rest \<Rightarrow>
          (case push_iteration adjacencyList degree v rmax pct st u rest of
             Inl e \<Rightarrow> Some (Inl e)
           | Inr st' \<Rightarrow> push_loop adjacencyList degree v rmax pct st'))"

declare push_loop.simps [code]

text \<open>The state a phase starts in, with seed \<open>seed\<close> (\<open>s\<close>, then \<open>t\<close>).\<close>

definition push_start :: "nat \<Rightarrow> nat \<Rightarrow> nat \<Rightarrow> number list \<Rightarrow> push_state" where
  "push_start n seed v reps =
     \<lparr>r_vec = f64_set (replicate n (Fin 0)) seed (Fin 1),
      p_vec = replicate n (Fin 0),
      queue = (if seed \<noteq> v then [seed] else []),
      inQueue = (if seed \<noteq> v then {seed} else {}),
      pushCount = 0,
      emitted = reps\<rparr>"

definition push_combine ::
  "nat list \<Rightarrow> nat \<Rightarrow> nat \<Rightarrow> number list \<Rightarrow> number list \<Rightarrow> number" where
  "push_combine degree s t ps pt =
     n_sub (n_sub (n_add (n_div (f64_get ps s) (degree_get degree s))
                         (n_div (f64_get pt t) (degree_get degree t)))
                  (n_div (f64_get ps t) (degree_get degree s)))
           (n_div (f64_get pt s) (degree_get degree t))"

text \<open>
  \<open>pushVSpJS(graph, {s, t, v, rmax}, onProgress)\<close> with the callback present: the values
  reported to \<open>onProgress\<close>, in order, and the number returned or the error thrown.
\<close>

definition pushVSpJS_run ::
  "Graph \<Rightarrow> nat \<Rightarrow> nat \<Rightarrow> nat \<Rightarrow> number \<Rightarrow> (number list \<times> (js_error + number)) option" where
  "pushVSpJS_run graph s t v rmax =
     (let n = nodes graph; degree = count_degrees n (edges graph) in
      case build_adjacency (replicate n []) (edges graph) of
        Inl e \<Rightarrow> Some ([], Inl e)
      | Inr adjacencyList \<Rightarrow>
          (case push_loop adjacencyList degree v rmax (Fin 25) (push_start n s v []) of
             None \<Rightarrow> None
           | Some (Inl (e, reps)) \<Rightarrow> Some (reps, Inl e)
           | Some (Inr sts) \<Rightarrow>
               (case push_loop adjacencyList degree v rmax (Fin 75)
                       (push_start n t v (emitted sts)) of
                  None \<Rightarrow> None
                | Some (Inl (e, reps)) \<Rightarrow> Some (reps, Inl e)
                | Some (Inr stt) \<Rightarrow>
                    Some (emitted stt @ [Fin 100],
                          Inr (push_combine degree s t (p_vec sts) (p_vec stt))))))"

definition pushVSpJS :: "Graph \<Rightarrow> nat \<Rightarrow> nat \<Rightarrow> nat \<Rightarrow> number \<Rightarrow> (js_error + number) option" where
  "pushVSpJS graph s t v rmax = map_option snd (pushVSpJS_run graph s t v rmax)"

subsection \<open>abwalkVSpJS\<close>

text \<open>
  \<open>Math.random()\<close> is the ambient generator of the JavaScript runtime; the estimator takes no
  seed. Its draws are a parameter of the model: \<open>rnd k\<close> is the value of the \<open>k\<close>-th call,
  a real number in \<open>[0, 1)\<close>.

  \<open>randNeighbor(u)\<close>, with \<open>x\<close> the value drawn. The current node is \<open>None\<close> when it is
  \<open>undefined\<close>, which is what an index outside the row yields.
\<close>

definition randNeighbor :: "nat list list \<Rightarrow> real \<Rightarrow> nat option \<Rightarrow> js_error + nat option" where
  "randNeighbor adjacencyList x u =
     (case u of
        None \<Rightarrow> Inl TypeError
      | Some w \<Rightarrow>
          if w < length adjacencyList then
            (let neighbors = adjacencyList ! w;
                 idx = nat \<lfloor>x * real (length neighbors)\<rfloor>
             in Inr (if idx < length neighbors then Some (neighbors ! idx) else None))
          else Inl TypeError)"

text \<open>
  One absorbed walk: the loop \<open>while (u !== v)\<close>. The state is the current node, the
  number of draws made so far, and the two counters the walk increments (\<open>tauss\<close>, \<open>taust\<close>
  for a walk from \<open>s\<close>; \<open>tauts\<close>, \<open>tautt\<close> for a walk from \<open>t\<close>).
\<close>

partial_function (option) walk ::
  "nat list list \<Rightarrow> (nat \<Rightarrow> real) \<Rightarrow> nat \<Rightarrow> nat \<Rightarrow> nat \<Rightarrow> nat option \<Rightarrow> nat \<Rightarrow> nat \<Rightarrow> nat
     \<Rightarrow> (js_error + (nat \<times> nat \<times> nat)) option" where
  "walk adjacencyList rnd s t v u k hits_s hits_t =
     (if u = Some v then Some (Inr (k, hits_s, hits_t))
      else
        (case randNeighbor adjacencyList (rnd k) u of
           Inl e \<Rightarrow> Some (Inl e)
         | Inr u' \<Rightarrow>
             walk adjacencyList rnd s t v u' (k + 1)
               (if u = Some s then hits_s + 1 else hits_s)
               (if u = Some t then hits_t + 1 else hits_t)))"

declare walk.simps [code]

text \<open>
  The loop \<open>for (let i = 0; i < times; i++)\<close> of walks from \<open>start\<close>, with its progress
  report; \<open>base\<close> is 0 for the walks from \<open>s\<close> and 50 for the walks from \<open>t\<close>. The parameter
  \<open>times\<close> is written \<open>ntimes\<close>.
\<close>

record walk_state =
  draws :: nat
  hits_of_s :: nat
  hits_of_t :: nat
  reported :: "number list"

function walks_from ::
  "nat list list \<Rightarrow> (nat \<Rightarrow> real) \<Rightarrow> nat \<Rightarrow> nat \<Rightarrow> nat \<Rightarrow> nat \<Rightarrow> nat \<Rightarrow> real \<Rightarrow> nat \<Rightarrow> walk_state
     \<Rightarrow> ((js_error \<times> number list) + walk_state) option" where
  "walks_from adjacencyList rnd s t v start ntimes base i st =
     (if i < ntimes then
        (case walk adjacencyList rnd s t v (Some start) (draws st) (hits_of_s st) (hits_of_t st) of
           None \<Rightarrow> None
         | Some (Inl e) \<Rightarrow> Some (Inl (e, reported st))
         | Some (Inr (k, a, b)) \<Rightarrow>
             walks_from adjacencyList rnd s t v start ntimes base (i + 1)
               (st\<lparr>draws := k, hits_of_s := a, hits_of_t := b,
                   reported :=
                     (if (i + 1) mod max 1 (ntimes div 20) = 0
                      then reported st @ [Fin (base + real (i + 1) / real ntimes * 50)]
                      else reported st)\<rparr>))
      else Some (Inr st))"
  by pat_completeness auto
termination
  by (relation "measure (\<lambda>(adjacencyList, rnd, s, t, v, start, ntimes, base, i, st). ntimes - i)")
    auto

definition abwalk_combine :: "nat list \<Rightarrow> nat \<Rightarrow> nat \<Rightarrow> nat \<Rightarrow> nat \<Rightarrow> nat \<Rightarrow> nat \<Rightarrow> nat \<Rightarrow> number" where
  "abwalk_combine degree s t ntimes tauss taust tauts tautt =
     n_add (n_sub (n_sub (n_div (of_count tauss) (n_mul (degree_get degree s) (of_count ntimes)))
                         (n_div (of_count taust) (n_mul (degree_get degree t) (of_count ntimes))))
                  (n_div (of_count tauts) (n_mul (degree_get degree s) (of_count ntimes))))
           (n_div (of_count tautt) (n_mul (degree_get degree t) (of_count ntimes)))"

text \<open>
  \<open>abwalkVSpJS(graph, {s, t, v, times}, onProgress)\<close> with the callback present, run on the
  draws \<open>rnd\<close>: the values reported to \<open>onProgress\<close> and the number returned or the error
  thrown.
\<close>

definition abwalkVSpJS_run ::
  "(nat \<Rightarrow> real) \<Rightarrow> Graph \<Rightarrow> nat \<Rightarrow> nat \<Rightarrow> nat \<Rightarrow> nat \<Rightarrow> (number list \<times> (js_error + number)) option" where
  "abwalkVSpJS_run rnd graph s t v ntimes =
     (let n = nodes graph; degree = count_degrees n (edges graph) in
      case build_adjacency (replicate n []) (edges graph) of
        Inl e \<Rightarrow> Some ([], Inl e)
      | Inr adjacencyList \<Rightarrow>
          (case walks_from adjacencyList rnd s t v s ntimes 0 0
                  \<lparr>draws = 0, hits_of_s = 0, hits_of_t = 0, reported = []\<rparr> of
             None \<Rightarrow> None
           | Some (Inl (e, reps)) \<Rightarrow> Some (reps, Inl e)
           | Some (Inr ws) \<Rightarrow>
               (case walks_from adjacencyList rnd s t v t ntimes 50 0
                       \<lparr>draws = draws ws, hits_of_s = 0, hits_of_t = 0, reported = reported ws\<rparr> of
                  None \<Rightarrow> None
                | Some (Inl (e, reps)) \<Rightarrow> Some (reps, Inl e)
                | Some (Inr wt) \<Rightarrow>
                    Some (reported wt,
                          Inr (abwalk_combine degree s t ntimes
                                 (hits_of_s ws) (hits_of_t ws) (hits_of_s wt) (hits_of_t wt))))))"

definition abwalkVSpJS ::
  "(nat \<Rightarrow> real) \<Rightarrow> Graph \<Rightarrow> nat \<Rightarrow> nat \<Rightarrow> nat \<Rightarrow> nat \<Rightarrow> (js_error + number) option" where
  "abwalkVSpJS rnd graph s t v ntimes = map_option snd (abwalkVSpJS_run rnd graph s t v ntimes)"

section \<open>The estimators in C++ (wasm/resistance.cpp)\<close>

text \<open>
  Indices are natural numbers. An access outside a vector or an input array, and a
  remainder by zero, are undefined behaviour in C++; the model stops there with a fault.
  In the WebAssembly build the remainder by zero is a trap of the instruction \<open>i32.rem_u\<close>.
\<close>

datatype cpp_fault = OutOfBounds | RemainderByZero

record SimpleQueue =
  sq_data :: "nat list"
  sq_inQueue :: "bool list"
  sq_front :: nat

definition sq_new :: "nat \<Rightarrow> SimpleQueue" where
  "sq_new n = \<lparr>sq_data = [], sq_inQueue = replicate n False, sq_front = 0\<rparr>"

definition sq_push :: "SimpleQueue \<Rightarrow> nat \<Rightarrow> cpp_fault + SimpleQueue" where
  "sq_push q node =
     (if node < length (sq_inQueue q) then
        Inr (if \<not> sq_inQueue q ! node
             then q\<lparr>sq_data := sq_data q @ [node], sq_inQueue := (sq_inQueue q)[node := True]\<rparr>
             else q)
      else Inl OutOfBounds)"

definition sq_pop :: "SimpleQueue \<Rightarrow> cpp_fault + (nat \<times> SimpleQueue)" where
  "sq_pop q =
     (if sq_front q < length (sq_data q) then
        (let node = sq_data q ! sq_front q in
         if node < length (sq_inQueue q)
         then Inr (node, q\<lparr>sq_front := sq_front q + 1,
                           sq_inQueue := (sq_inQueue q)[node := False]\<rparr>)
         else Inl OutOfBounds)
      else Inl OutOfBounds)"

definition sq_empty :: "SimpleQueue \<Rightarrow> bool" where
  "sq_empty q = (length (sq_data q) \<le> sq_front q)"

definition sq_clear :: "SimpleQueue \<Rightarrow> SimpleQueue" where
  "sq_clear q = \<lparr>sq_data = [], sq_inQueue = replicate (length (sq_inQueue q)) False, sq_front = 0\<rparr>"

text \<open>A loop over a list whose body may fault.\<close>

fun for_each :: "('s \<Rightarrow> 'a \<Rightarrow> cpp_fault + 's) \<Rightarrow> 's \<Rightarrow> 'a list \<Rightarrow> cpp_fault + 's" where
  "for_each body st [] = Inr st"
| "for_each body st (x # xs) =
     (case body st x of Inl f \<Rightarrow> Inl f | Inr st' \<Rightarrow> for_each body st' xs)"

text \<open>
  The loop \<open>for (int i = 0; i < m; i++)\<close> that fills \<open>adj\<close> and \<open>degree\<close> from the two input
  arrays. The vector \<open>degree\<close> holds counts and is kept as a list of natural numbers.
\<close>

definition build_edge ::
  "nat list \<Rightarrow> nat list \<Rightarrow> nat list list \<times> nat list \<Rightarrow> nat \<Rightarrow> cpp_fault + (nat list list \<times> nat list)" where
  "build_edge edgeSources edgeTargets ad i =
     (if i < length edgeSources \<and> i < length edgeTargets then
        (let u = edgeSources ! i; w = edgeTargets ! i in
         if u < length (fst ad) \<and> u < length (snd ad)
         then Inr ((fst ad)[u := fst ad ! u @ [w]], (snd ad)[u := snd ad ! u + 1])
         else Inl OutOfBounds)
      else Inl OutOfBounds)"

definition build_vectors ::
  "nat \<Rightarrow> nat \<Rightarrow> nat list \<Rightarrow> nat list \<Rightarrow> cpp_fault + (nat list list \<times> nat list)" where
  "build_vectors n m edgeSources edgeTargets =
     for_each (build_edge edgeSources edgeTargets) (replicate n [], replicate n 0) [0..<m]"

subsection \<open>pushVSp\<close>

record cpp_push_state =
  c_r :: "number list"
  c_p :: "number list"
  c_queue :: SimpleQueue

definition cpp_push_neighbor ::
  "nat list \<Rightarrow> nat \<Rightarrow> number \<Rightarrow> nat \<Rightarrow> cpp_push_state \<Rightarrow> nat \<Rightarrow> cpp_fault + cpp_push_state" where
  "cpp_push_neighbor degree v rmax u st nei =
     (if nei = v then Inr st
      else if nei < length (c_r st) \<and> u < length (c_r st)
              \<and> nei < length degree \<and> u < length degree then
        (let st1 = st\<lparr>c_r := (c_r st)[nei :=
                       n_add (c_r st ! nei) (n_div (c_r st ! u) (of_count (degree ! u)))]\<rparr>
         in if n_gt (c_r st1 ! nei) (n_mul (of_count (degree ! nei)) rmax)
            then (case sq_push (c_queue st1) nei of
                    Inl f \<Rightarrow> Inl f
                  | Inr q \<Rightarrow> Inr (st1\<lparr>c_queue := q\<rparr>))
            else Inr st1)
      else Inl OutOfBounds)"

definition cpp_push_iteration ::
  "nat list list \<Rightarrow> nat list \<Rightarrow> nat \<Rightarrow> number \<Rightarrow> cpp_push_state \<Rightarrow> cpp_fault + cpp_push_state" where
  "cpp_push_iteration adj degree v rmax st =
     (case sq_pop (c_queue st) of
        Inl f \<Rightarrow> Inl f
      | Inr (u, q) \<Rightarrow>
          if u < length (c_p st) \<and> u < length (c_r st) \<and> u < length adj then
            (let st1 = st\<lparr>c_queue := q, c_p := (c_p st)[u := n_add (c_p st ! u) (c_r st ! u)]\<rparr>
             in case for_each (cpp_push_neighbor degree v rmax u) st1 (adj ! u) of
                  Inl f \<Rightarrow> Inl f
                | Inr st2 \<Rightarrow> Inr (st2\<lparr>c_r := (c_r st2)[u := Fin 0]\<rparr>))
          else Inl OutOfBounds)"

partial_function (option) cpp_push_loop ::
  "nat list list \<Rightarrow> nat list \<Rightarrow> nat \<Rightarrow> number \<Rightarrow> cpp_push_state
     \<Rightarrow> (cpp_fault + cpp_push_state) option" where
  "cpp_push_loop adj degree v rmax st =
     (if sq_empty (c_queue st) then Some (Inr st)
      else
        (case cpp_push_iteration adj degree v rmax st of
           Inl f \<Rightarrow> Some (Inl f)
         | Inr st' \<Rightarrow> cpp_push_loop adj degree v rmax st'))"

declare cpp_push_loop.simps [code]

text \<open>
  One phase: the two fresh vectors, the seed's residual, the seed in the queue unless it is
  the landmark, and the loop. \<open>queue\<close> is the queue object as the phase finds it (new for
  the first phase, cleared for the second).
\<close>

definition cpp_push_phase ::
  "nat list list \<Rightarrow> nat list \<Rightarrow> nat \<Rightarrow> nat \<Rightarrow> nat \<Rightarrow> number \<Rightarrow> SimpleQueue
     \<Rightarrow> (cpp_fault + cpp_push_state) option" where
  "cpp_push_phase adj degree n seed v rmax queue0 =
     (if seed < n then
        (case (if seed \<noteq> v then sq_push queue0 seed else Inr queue0) of
           Inl f \<Rightarrow> Some (Inl f)
         | Inr q \<Rightarrow>
             cpp_push_loop adj degree v rmax
               \<lparr>c_r = (replicate n (Fin 0))[seed := Fin 1], c_p = replicate n (Fin 0),
                c_queue = q\<rparr>)
      else Some (Inl OutOfBounds))"

definition cpp_push_combine ::
  "nat list \<Rightarrow> nat \<Rightarrow> nat \<Rightarrow> number list \<Rightarrow> number list \<Rightarrow> number" where
  "cpp_push_combine degree s t ps pt =
     n_sub (n_sub (n_add (n_div (ps ! s) (of_count (degree ! s)))
                         (n_div (pt ! t) (of_count (degree ! t))))
                  (n_div (ps ! t) (of_count (degree ! s))))
           (n_div (pt ! s) (of_count (degree ! t)))"

definition pushVSp ::
  "nat \<Rightarrow> nat \<Rightarrow> nat list \<Rightarrow> nat list \<Rightarrow> nat \<Rightarrow> nat \<Rightarrow> nat \<Rightarrow> number \<Rightarrow> (cpp_fault + number) option" where
  "pushVSp n m edgeSources edgeTargets s t v rmax =
     (case build_vectors n m edgeSources edgeTargets of
        Inl f \<Rightarrow> Some (Inl f)
      | Inr (adj, degree) \<Rightarrow>
          (case cpp_push_phase adj degree n s v rmax (sq_new n) of
             None \<Rightarrow> None
           | Some (Inl f) \<Rightarrow> Some (Inl f)
           | Some (Inr sts) \<Rightarrow>
               (case cpp_push_phase adj degree n t v rmax (sq_clear (c_queue sts)) of
                  None \<Rightarrow> None
                | Some (Inl f) \<Rightarrow> Some (Inl f)
                | Some (Inr stt) \<Rightarrow>
                    Some (Inr (cpp_push_combine degree s t (c_p sts) (c_p stt))))))"

subsection \<open>abwalkVSp\<close>

text \<open>
  The generator of the C library is global state, and its two functions are parameters of
  the model: \<open>srand seed g\<close> is the state that \<open>srand(seed)\<close> leaves when called in state
  \<open>g\<close>, and \<open>rand g\<close> is the value \<open>rand()\<close> returns in state \<open>g\<close> with the state it leaves.
\<close>

partial_function (option) cpp_walk ::
  "('g \<Rightarrow> nat \<times> 'g) \<Rightarrow> nat list list \<Rightarrow> nat \<Rightarrow> nat \<Rightarrow> nat \<Rightarrow> nat \<Rightarrow> 'g \<Rightarrow> nat \<Rightarrow> nat
     \<Rightarrow> (cpp_fault + ('g \<times> nat \<times> nat)) option" where
  "cpp_walk rand adj s t v u g hits_s hits_t =
     (if u = v then Some (Inr (g, hits_s, hits_t))
      else if u < length adj then
        (if length (adj ! u) = 0 then Some (Inl RemainderByZero)
         else
           cpp_walk rand adj s t v ((adj ! u) ! (fst (rand g) mod length (adj ! u))) (snd (rand g))
             (if u = s then hits_s + 1 else hits_s)
             (if u = t then hits_t + 1 else hits_t))
      else Some (Inl OutOfBounds))"

declare cpp_walk.simps [code]

function cpp_walks_from ::
  "('g \<Rightarrow> nat \<times> 'g) \<Rightarrow> nat list list \<Rightarrow> nat \<Rightarrow> nat \<Rightarrow> nat \<Rightarrow> nat \<Rightarrow> nat \<Rightarrow> nat \<Rightarrow> 'g \<times> nat \<times> nat
     \<Rightarrow> (cpp_fault + ('g \<times> nat \<times> nat)) option" where
  "cpp_walks_from rand adj s t v start ntimes i st =
     (if i < ntimes then
        (case cpp_walk rand adj s t v start (fst st) (fst (snd st)) (snd (snd st)) of
           None \<Rightarrow> None
         | Some (Inl f) \<Rightarrow> Some (Inl f)
         | Some (Inr st') \<Rightarrow> cpp_walks_from rand adj s t v start ntimes (i + 1) st')
      else Some (Inr st))"
  by pat_completeness auto
termination
  by (relation "measure (\<lambda>(rand, adj, s, t, v, start, ntimes, i, st). ntimes - i)") auto

definition cpp_abwalk_combine ::
  "nat list \<Rightarrow> nat \<Rightarrow> nat \<Rightarrow> nat \<Rightarrow> nat \<Rightarrow> nat \<Rightarrow> nat \<Rightarrow> nat \<Rightarrow> number" where
  "cpp_abwalk_combine degree s t ntimes tauss taust tauts tautt =
     n_add (n_sub (n_sub (n_div (of_count tauss) (n_mul (of_count (degree ! s)) (of_count ntimes)))
                         (n_div (of_count taust) (n_mul (of_count (degree ! t)) (of_count ntimes))))
                  (n_div (of_count tauts) (n_mul (of_count (degree ! s)) (of_count ntimes))))
           (n_div (of_count tautt) (n_mul (of_count (degree ! t)) (of_count ntimes)))"

text \<open>
  \<open>abwalkVSp(n, m, edgeSources, edgeTargets, s, t, v, times, seed)\<close>, called when the
  generator of the C library is in state \<open>ambient\<close>. The first statement is \<open>srand(seed)\<close>.
\<close>

definition abwalkVSp ::
  "(nat \<Rightarrow> 'g \<Rightarrow> 'g) \<Rightarrow> ('g \<Rightarrow> nat \<times> 'g) \<Rightarrow> 'g \<Rightarrow> nat \<Rightarrow> nat \<Rightarrow> nat list \<Rightarrow> nat list
     \<Rightarrow> nat \<Rightarrow> nat \<Rightarrow> nat \<Rightarrow> nat \<Rightarrow> nat \<Rightarrow> (cpp_fault + number) option" where
  "abwalkVSp srand rand ambient n m edgeSources edgeTargets s t v ntimes seed =
     (let g0 = srand seed ambient in
      case build_vectors n m edgeSources edgeTargets of
        Inl f \<Rightarrow> Some (Inl f)
      | Inr (adj, degree) \<Rightarrow>
          (case cpp_walks_from rand adj s t v s ntimes 0 (g0, 0, 0) of
             None \<Rightarrow> None
           | Some (Inl f) \<Rightarrow> Some (Inl f)
           | Some (Inr (g1, tauss, taust)) \<Rightarrow>
               (case cpp_walks_from rand adj s t v t ntimes 0 (g1, 0, 0) of
                  None \<Rightarrow> None
                | Some (Inl f) \<Rightarrow> Some (Inl f)
                | Some (Inr (g2, tauts, tautt)) \<Rightarrow>
                    if s < length degree \<and> t < length degree
                    then Some (Inr (cpp_abwalk_combine degree s t ntimes tauss taust tauts tautt))
                    else Some (Inl OutOfBounds))))"

section \<open>The push estimator as the specification words it\<close>

text \<open>
  The graph model of the specification: the neighbours of a node are the targets of its
  outgoing arcs in insertion order, and its degree is their number.
\<close>

definition spec_neighbors :: "Graph \<Rightarrow> nat \<Rightarrow> nat list" where
  "spec_neighbors graph u = map target (filter (\<lambda>e. source e = u) (edges graph))"

definition spec_degree :: "Graph \<Rightarrow> nat \<Rightarrow> nat" where
  "spec_degree graph u = length (spec_neighbors graph u)"

text \<open>A graph whose arcs join nodes of the graph, the data model's \<open>ids 0..n-1\<close>.\<close>

definition well_formed :: "Graph \<Rightarrow> bool" where
  "well_formed graph =
     list_all (\<lambda>e. source e < nodes graph \<and> target e < nodes graph) (edges graph)"

text \<open>A graph in which no arc joins a node to itself.\<close>

definition no_self_loops :: "Graph \<Rightarrow> bool" where
  "no_self_loops graph = list_all (\<lambda>e. source e \<noteq> target e) (edges graph)"

text \<open>
  One push phase in the specification's words. The state is the residual vector, the
  settled vector and the queue, which is first-in first-out and holds a node at most once:
  a node that is enqueued is marked active, and it is not enqueued again until it has been
  processed and its residual cleared. So while the dequeued node \<open>u\<close> is processed, the
  active nodes are \<open>u\<close> itself and the nodes in the queue.

  For a neighbour \<open>w\<close> of the dequeued node \<open>u\<close> other than the landmark: add
  \<open>r[u] / degree(u)\<close> to \<open>r[w]\<close>, and enqueue \<open>w\<close> if \<open>r[w]\<close> now exceeds
  \<open>degree(w) * rmax\<close> and \<open>w\<close> is not active.
\<close>

definition spec_push_to ::
  "Graph \<Rightarrow> nat \<Rightarrow> number \<Rightarrow> nat \<Rightarrow> number list \<times> nat list \<Rightarrow> nat \<Rightarrow> number list \<times> nat list" where
  "spec_push_to graph v rmax u rq w =
     (if w = v then rq
      else
        (let r' = (fst rq)[w := n_add (fst rq ! w)
                                  (n_div (fst rq ! u) (of_count (spec_degree graph u)))]
         in if n_gt (r' ! w) (n_mul (of_count (spec_degree graph w)) rmax)
               \<and> w \<notin> set (u # snd rq)
            then (r', snd rq @ [w]) else (r', snd rq)))"

text \<open>
  While the queue is not empty: dequeue \<open>u\<close>, add its residual into \<open>settled[u]\<close>, push to
  every neighbour, then zero \<open>r[u]\<close>; from then on \<open>u\<close> is not active any more. The result
  is the settled vector.
\<close>

partial_function (option) spec_push_loop ::
  "Graph \<Rightarrow> nat \<Rightarrow> number \<Rightarrow> number list \<Rightarrow> number list \<Rightarrow> nat list \<Rightarrow> number list option" where
  "spec_push_loop graph v rmax r settled q =
     (case q of
        [] \<Rightarrow> Some settled
      | u # rest \<Rightarrow>
          spec_push_loop graph v rmax
            ((fst (foldl (spec_push_to graph v rmax u) (r, rest) (spec_neighbors graph u)))
               [u := Fin 0])
            (settled[u := n_add (settled ! u) (r ! u)])
            (snd (foldl (spec_push_to graph v rmax u) (r, rest) (spec_neighbors graph u))))"

declare spec_push_loop.simps [code]

text \<open>
  Residual 1 at the seed and 0 elsewhere, settled values 0, the queue seeded with the seed
  unless the seed is the landmark.
\<close>

definition spec_push_phase :: "Graph \<Rightarrow> nat \<Rightarrow> nat \<Rightarrow> number \<Rightarrow> number list option" where
  "spec_push_phase graph seed v rmax =
     spec_push_loop graph v rmax
       ((replicate (nodes graph) (Fin 0))[seed := Fin 1])
       (replicate (nodes graph) (Fin 0))
       (if seed = v then [] else [seed])"

text \<open>The combination formula of the specification.\<close>

definition spec_combine :: "Graph \<Rightarrow> nat \<Rightarrow> nat \<Rightarrow> number list \<Rightarrow> number list \<Rightarrow> number" where
  "spec_combine graph s t settled_from_s settled_from_t =
     n_sub (n_sub (n_add (n_div (settled_from_s ! s) (of_count (spec_degree graph s)))
                         (n_div (settled_from_t ! t) (of_count (spec_degree graph t))))
                  (n_div (settled_from_s ! t) (of_count (spec_degree graph s))))
           (n_div (settled_from_t ! s) (of_count (spec_degree graph t)))"

section \<open>The push phase on the queue of the two implementations\<close>

text \<open>
  The two implementations run the same push phase on queues that differ in representation
  only. Here that phase is written once, over a list as the queue. Both implementations
  remove the mark of a node at the moment they dequeue it, before its neighbours are
  visited (\<open>inQueue.delete(u)\<close> right after \<open>queue.shift()\<close> in \<open>pushVSpJS\<close>,
  \<open>inQueue[node] = false\<close> in \<open>SimpleQueue::pop\<close>): the marked nodes are the nodes in the
  list, and a neighbour is enqueued when it is not in the list. The node being processed
  is not in the list, so a push along a self-loop can enqueue it again.
\<close>

definition fifo_push_to ::
  "Graph \<Rightarrow> nat \<Rightarrow> number \<Rightarrow> nat \<Rightarrow> number list \<times> nat list \<Rightarrow> nat \<Rightarrow> number list \<times> nat list" where
  "fifo_push_to graph v rmax u rq w =
     (if w = v then rq
      else
        (let r' = (fst rq)[w := n_add (fst rq ! w)
                                  (n_div (fst rq ! u) (of_count (spec_degree graph u)))]
         in if n_gt (r' ! w) (n_mul (of_count (spec_degree graph w)) rmax) \<and> w \<notin> set (snd rq)
            then (r', snd rq @ [w]) else (r', snd rq)))"

partial_function (option) fifo_push_loop ::
  "Graph \<Rightarrow> nat \<Rightarrow> number \<Rightarrow> number list \<Rightarrow> number list \<Rightarrow> nat list \<Rightarrow> number list option" where
  "fifo_push_loop graph v rmax r settled q =
     (case q of
        [] \<Rightarrow> Some settled
      | u # rest \<Rightarrow>
          fifo_push_loop graph v rmax
            ((fst (foldl (fifo_push_to graph v rmax u) (r, rest) (spec_neighbors graph u)))
               [u := Fin 0])
            (settled[u := n_add (settled ! u) (r ! u)])
            (snd (foldl (fifo_push_to graph v rmax u) (r, rest) (spec_neighbors graph u))))"

declare fifo_push_loop.simps [code]

definition fifo_push_phase :: "Graph \<Rightarrow> nat \<Rightarrow> nat \<Rightarrow> number \<Rightarrow> number list option" where
  "fifo_push_phase graph seed v rmax =
     fifo_push_loop graph v rmax
       ((replicate (nodes graph) (Fin 0))[seed := Fin 1])
       (replicate (nodes graph) (Fin 0))
       (if seed = v then [] else [seed])"

text \<open>The two phases combined; \<open>None\<close> when a phase does not end.\<close>

definition fifo_push :: "Graph \<Rightarrow> nat \<Rightarrow> nat \<Rightarrow> nat \<Rightarrow> number \<Rightarrow> number option" where
  "fifo_push graph s t v rmax =
     (case fifo_push_phase graph s v rmax of
        None \<Rightarrow> None
      | Some settled_from_s \<Rightarrow>
          (case fifo_push_phase graph t v rmax of
             None \<Rightarrow> None
           | Some settled_from_t \<Rightarrow>
               Some (spec_combine graph s t settled_from_s settled_from_t)))"

section \<open>The worker (workers/resistance.worker.ts)\<close>

datatype AlgorithmType = push_v_sp_wasm | push_v_sp_js | abwalk_v_sp_wasm | abwalk_v_sp_js

text \<open>The two variants of \<open>AlgorithmParams\<close>: \<open>{s, t, v, rmax}\<close> and \<open>{s, t, v, times}\<close>.\<close>

datatype AlgorithmParams = PushVSpParams nat nat nat number | AbwalkVSpParams nat nat nat nat

text \<open>
  The fields a function reads after its unchecked cast \<open>params as ...\<close>. A field the value
  does not have is \<open>undefined\<close>: as \<open>rmax\<close> it makes every comparison false, like
  not-a-number; as \<open>times\<close> it makes \<open>i < times\<close> false and the products \<open>degree * times\<close>
  not-a-number, so that the estimate is \<open>0 / NaN\<close>, which is the \<open>0 / 0\<close> that zero walks
  give.
\<close>

fun param_s :: "AlgorithmParams \<Rightarrow> nat" where
  "param_s (PushVSpParams s t v rmax) = s"
| "param_s (AbwalkVSpParams s t v ntimes) = s"

fun param_t :: "AlgorithmParams \<Rightarrow> nat" where
  "param_t (PushVSpParams s t v rmax) = t"
| "param_t (AbwalkVSpParams s t v ntimes) = t"

fun param_v :: "AlgorithmParams \<Rightarrow> nat" where
  "param_v (PushVSpParams s t v rmax) = v"
| "param_v (AbwalkVSpParams s t v ntimes) = v"

fun param_rmax :: "AlgorithmParams \<Rightarrow> number" where
  "param_rmax (PushVSpParams s t v rmax) = rmax"
| "param_rmax (AbwalkVSpParams s t v ntimes) = NaN"

fun param_times :: "AlgorithmParams \<Rightarrow> nat" where
  "param_times (PushVSpParams s t v rmax) = 0"
| "param_times (AbwalkVSpParams s t v ntimes) = ntimes"

record ComputeMessage =
  algorithm :: AlgorithmType
  graph_of :: Graph
  params :: AlgorithmParams
  taskId :: string

datatype WorkerMessage = COMPUTE ComputeMessage | CANCEL string

text \<open>
  What the worker posts, with the task identifier first. The measured time of a result is
  left out, and the text of an error is the name of its class.
\<close>

datatype WorkerResult = PROGRESS string number | RESULT string number | ERROR string string

fun error_message :: "js_error \<Rightarrow> string" where
  "error_message TypeError = ''TypeError''"

text \<open>
  The surroundings of a computation: whether \<open>loadWASM\<close> succeeds, the draws of
  \<open>Math.random()\<close>, and the generator of the C library inside the module.
\<close>

record 'g environment =
  wasm_loads :: bool
  math_random :: "nat \<Rightarrow> real"
  c_srand :: "nat \<Rightarrow> 'g \<Rightarrow> 'g"
  c_rand :: "'g \<Rightarrow> nat \<times> 'g"
  c_ambient :: 'g

text \<open>
  The functions \<open>execute...\<close> give the messages posted while they run and the number they
  return or the error they throw.
\<close>

definition executePushVSpJS ::
  "ComputeMessage \<Rightarrow> (WorkerResult list \<times> (js_error + number)) option" where
  "executePushVSpJS message =
     map_option (\<lambda>(reps, out). (map (PROGRESS (taskId message)) reps, out))
       (pushVSpJS_run (graph_of message) (param_s (params message)) (param_t (params message))
          (param_v (params message)) (param_rmax (params message)))"

definition executeAbwalkVSpJS ::
  "(nat \<Rightarrow> real) \<Rightarrow> ComputeMessage \<Rightarrow> (WorkerResult list \<times> (js_error + number)) option" where
  "executeAbwalkVSpJS rnd message =
     map_option (\<lambda>(reps, out). (map (PROGRESS (taskId message)) reps, out))
       (abwalkVSpJS_run rnd (graph_of message) (param_s (params message))
          (param_t (params message)) (param_v (params message)) (param_times (params message)))"

text \<open>
  \<open>executePushVSpWASM\<close>: the whole body is inside \<open>try\<close>, and the handler falls back to
  \<open>executePushVSpJS\<close>. When loading fails nothing has been posted yet. When the call into
  the module fails, the progress message of 50 has been posted already. A fault of the C++
  code is taken as such a failure. Allocation and copying are taken to succeed.
\<close>

definition executePushVSpWASM ::
  "'g environment \<Rightarrow> ComputeMessage \<Rightarrow> (WorkerResult list \<times> (js_error + number)) option" where
  "executePushVSpWASM env message =
     (if \<not> wasm_loads env then executePushVSpJS message
      else
        (let g = graph_of message; p = params message in
         case pushVSp (nodes g) (length (edges g)) (map source (edges g)) (map target (edges g))
                (param_s p) (param_t p) (param_v p) (param_rmax p) of
           None \<Rightarrow> None
         | Some (Inr result) \<Rightarrow> Some ([PROGRESS (taskId message) (Fin 50)], Inr result)
         | Some (Inl fault) \<Rightarrow>
             map_option (\<lambda>(posted, out). (PROGRESS (taskId message) (Fin 50) # posted, out))
               (executePushVSpJS message)))"

text \<open>
  \<open>executeAbwalkVSpWASM\<close>, likewise. After loading, the seed is drawn from
  \<open>Math.random()\<close>, so a later fallback runs on the draws that follow.
\<close>

definition executeAbwalkVSpWASM ::
  "'g environment \<Rightarrow> ComputeMessage \<Rightarrow> (WorkerResult list \<times> (js_error + number)) option" where
  "executeAbwalkVSpWASM env message =
     (if \<not> wasm_loads env then executeAbwalkVSpJS (math_random env) message
      else
        (let g = graph_of message; p = params message;
             seed = nat \<lfloor>math_random env 0 * 4294967295\<rfloor> in
         case abwalkVSp (c_srand env) (c_rand env) (c_ambient env)
                (nodes g) (length (edges g)) (map source (edges g)) (map target (edges g))
                (param_s p) (param_t p) (param_v p) (param_times p) seed of
           None \<Rightarrow> None
         | Some (Inr result) \<Rightarrow> Some ([PROGRESS (taskId message) (Fin 50)], Inr result)
         | Some (Inl fault) \<Rightarrow>
             map_option (\<lambda>(posted, out). (PROGRESS (taskId message) (Fin 50) # posted, out))
               (executeAbwalkVSpJS (\<lambda>k. math_random env (k + 1)) message)))"

text \<open>
  \<open>handleCompute\<close>: all the messages the worker posts for one \<open>COMPUTE\<close> message, in order;
  \<open>None\<close> when the computation does not end.
\<close>

definition handleCompute :: "'g environment \<Rightarrow> ComputeMessage \<Rightarrow> WorkerResult list option" where
  "handleCompute env message =
     map_option
       (\<lambda>(posted, out).
          posted @ [case out of
                      Inr result \<Rightarrow> RESULT (taskId message) result
                    | Inl e \<Rightarrow> ERROR (taskId message) (error_message e)])
       (case algorithm message of
          push_v_sp_wasm \<Rightarrow> executePushVSpWASM env message
        | abwalk_v_sp_wasm \<Rightarrow> executeAbwalkVSpWASM env message
        | push_v_sp_js \<Rightarrow> executePushVSpJS message
        | abwalk_v_sp_js \<Rightarrow> executeAbwalkVSpJS (math_random env) message)"

text \<open>\<open>self.onmessage\<close>: a \<open>CANCEL\<close> message is logged and nothing else happens.\<close>

definition worker_onmessage :: "'g environment \<Rightarrow> WorkerMessage \<Rightarrow> WorkerResult list option" where
  "worker_onmessage env message =
     (case message of
        COMPUTE m \<Rightarrow> handleCompute env m
      | CANCEL tid \<Rightarrow> Some [])"

text \<open>The progress values among posted messages, in order.\<close>

fun progress_values :: "WorkerResult list \<Rightarrow> number list" where
  "progress_values [] = []"
| "progress_values (PROGRESS tid x # ms) = x # progress_values ms"
| "progress_values (m # ms) = progress_values ms"

fun non_decreasing :: "number list \<Rightarrow> bool" where
  "non_decreasing [] = True"
| "non_decreasing [x] = True"
| "non_decreasing (x # y # ys) = (n_le x y \<and> non_decreasing (y # ys))"

section \<open>The hook on the caller's side (hooks/useResistanceWorker)\<close>

text \<open>
  \<open>tasksRef\<close> is a \<open>Map\<close> from task identifiers to the callbacks of the task; it is kept as
  an association list in insertion order, and of a task only whether it has the optional
  \<open>onProgress\<close> is recorded. \<open>worker_alive\<close> says that \<open>workerRef.current\<close> is not null.
\<close>

record hook_state =
  worker_alive :: bool
  tasks :: "(string \<times> bool) list"

definition hook_initial :: hook_state where
  "hook_initial = \<lparr>worker_alive = False, tasks = []\<rparr>"

definition tasks_set :: "(string \<times> bool) list \<Rightarrow> string \<Rightarrow> bool \<Rightarrow> (string \<times> bool) list" where
  "tasks_set m k x =
     (if k \<in> set (map fst m) then map (\<lambda>(k', x'). if k' = k then (k', x) else (k', x')) m
      else m @ [(k, x)])"

definition tasks_delete :: "(string \<times> bool) list \<Rightarrow> string \<Rightarrow> (string \<times> bool) list" where
  "tasks_delete m k = filter (\<lambda>(k', x'). k' \<noteq> k) m"

text \<open>
  What happens on the caller's thread, one event at a time: the effect runs or is cleaned
  up, \<open>compute\<close> is called and draws the identifier \<open>tid\<close> (from the clock and
  \<open>Math.random()\<close>), \<open>cancel\<close> is called, a message of the worker arrives, or the worker
  reports an error.
\<close>

datatype hook_event =
    Mount
  | Unmount
  | Compute string bool
  | Cancel string
  | Arrives WorkerResult
  | WorkerFails

text \<open>The callbacks of a task that the hook invokes, which is all the caller observes.\<close>

datatype callback = OnResult string number | OnError string string | OnProgress string number

fun callback_task :: "callback \<Rightarrow> string" where
  "callback_task (OnResult tid x) = tid"
| "callback_task (OnError tid e) = tid"
| "callback_task (OnProgress tid x) = tid"

fun result_task :: "WorkerResult \<Rightarrow> string" where
  "result_task (PROGRESS tid x) = tid"
| "result_task (RESULT tid x) = tid"
| "result_task (ERROR tid e) = tid"

text \<open>\<open>workerRef.current.onmessage\<close>.\<close>

definition hook_onmessage :: "hook_state \<Rightarrow> WorkerResult \<Rightarrow> hook_state \<times> callback list" where
  "hook_onmessage st message =
     (case map_of (tasks st) (result_task message) of
        None \<Rightarrow> (st, [])
      | Some has_onProgress \<Rightarrow>
          (case message of
             RESULT tid x \<Rightarrow> (st\<lparr>tasks := tasks_delete (tasks st) tid\<rparr>, [OnResult tid x])
           | ERROR tid e \<Rightarrow> (st\<lparr>tasks := tasks_delete (tasks st) tid\<rparr>, [OnError tid e])
           | PROGRESS tid x \<Rightarrow> (st, if has_onProgress then [OnProgress tid x] else [])))"

fun hook_step :: "hook_state \<Rightarrow> hook_event \<Rightarrow> hook_state \<times> callback list" where
  "hook_step st Mount = (st\<lparr>worker_alive := True\<rparr>, [])"
| "hook_step st Unmount = (st\<lparr>worker_alive := False, tasks := []\<rparr>, [])"
| "hook_step st (Compute tid has_onProgress) =
     (if worker_alive st then (st\<lparr>tasks := tasks_set (tasks st) tid has_onProgress\<rparr>, [])
      else (st, []))"
| "hook_step st (Cancel tid) =
     (if worker_alive st then (st\<lparr>tasks := tasks_delete (tasks st) tid\<rparr>, []) else (st, []))"
| "hook_step st (Arrives message) = hook_onmessage st message"
| "hook_step st WorkerFails =
     (st\<lparr>tasks := []\<rparr>, map (\<lambda>(tid, x). OnError tid ''Worker error occurred'') (tasks st))"

text \<open>A sequence of events: the state it leads to and the callbacks invoked on the way.\<close>

fun hook_run :: "hook_state \<Rightarrow> hook_event list \<Rightarrow> hook_state \<times> callback list" where
  "hook_run st [] = (st, [])"
| "hook_run st (e # es) =
     (let (st1, out1) = hook_step st e; (st2, out2) = hook_run st1 es in (st2, out1 @ out2))"

definition delivered_to :: "string \<Rightarrow> callback list \<Rightarrow> callback list" where
  "delivered_to tid out = filter (\<lambda>c. callback_task c = tid) out"

definition is_compute_of :: "string \<Rightarrow> hook_event \<Rightarrow> bool" where
  "is_compute_of tid e = (case e of Compute tid' x \<Rightarrow> tid' = tid | _ \<Rightarrow> False)"

text \<open>
  Whenever \<open>workerRef.current\<close> is null the task map is empty: \<open>compute\<close> registers
  nothing without a worker, and the cleanup clears the map.
\<close>

definition hook_inv :: "hook_state \<Rightarrow> bool" where
  "hook_inv st = (\<not> worker_alive st \<longrightarrow> tasks st = [])"

section \<open>Predicates, relations and invariants of the statements and proofs\<close>

text \<open>
  A set of nodes that a walk cannot leave: every node of the set has an outgoing arc, and
  every arc from a node of the set ends in the set.
\<close>

definition closed_nodes :: "Graph \<Rightarrow> nat set \<Rightarrow> bool" where
  "closed_nodes g S =
     ((\<forall>u \<in> S. spec_degree g u \<noteq> 0)
      \<and> (\<forall>e \<in> set (edges g). source e \<in> S \<longrightarrow> target e \<in> S))"

text \<open>Finite numbers, and numbers that are not below zero (not-a-number included).\<close>

fun finite_number :: "number \<Rightarrow> bool" where
  "finite_number (Fin a) = True"
| "finite_number x = False"

fun not_negative :: "number \<Rightarrow> bool" where
  "not_negative (Fin a) = (0 \<le> a)"
| "not_negative NInf = False"
| "not_negative x = True"

text \<open>Progress messages, and progress values between 0 and 100.\<close>

fun is_progress :: "WorkerResult \<Rightarrow> bool" where
  "is_progress (PROGRESS tid x) = True"
| "is_progress m = False"

definition in_percent_range :: "number \<Rightarrow> bool" where
  "in_percent_range x = (n_le (Fin 0) x \<and> n_le x (Fin 100))"

text \<open>
  The state of a JavaScript push phase matches a state of the phase on a list: the same
  vectors and queue, the membership set holding exactly the queued nodes, every queued
  node a node of the graph and queued once.
\<close>

definition push_rel :: "nat \<Rightarrow> push_state \<Rightarrow> number list \<Rightarrow> number list \<Rightarrow> nat list \<Rightarrow> bool" where
  "push_rel n st r settled q =
     (r_vec st = r \<and> p_vec st = settled \<and> queue st = q \<and> inQueue st = set q
      \<and> length r = n \<and> length settled = n \<and> list_all (\<lambda>u. u < n) q \<and> distinct q)"

text \<open>
  The adjacency list and the degree array that the estimators build agree with the
  neighbours and degrees of the specification's graph model.
\<close>

definition js_context :: "Graph \<Rightarrow> nat list list \<Rightarrow> nat list \<Rightarrow> bool" where
  "js_context g adjacencyList degree =
     (well_formed g \<and> length adjacencyList = nodes g
      \<and> (\<forall>u < nodes g. adjacencyList ! u = spec_neighbors g u)
      \<and> (\<forall>u < nodes g. degree_get degree u = of_count (spec_degree g u)))"

text \<open>
  The state of a C++ push phase matches a state of the phase on a list: the same
  vectors; the list is what lies at and after \<open>front\<close> in \<open>data\<close>,
  and the flags of \<open>inQueue\<close> mark exactly its nodes.
\<close>

definition cpp_rel ::
  "nat \<Rightarrow> cpp_push_state \<Rightarrow> number list \<Rightarrow> number list \<Rightarrow> nat list \<Rightarrow> bool" where
  "cpp_rel n st r settled q =
     (c_r st = r \<and> c_p st = settled
      \<and> drop (sq_front (c_queue st)) (sq_data (c_queue st)) = q
      \<and> sq_front (c_queue st) \<le> length (sq_data (c_queue st))
      \<and> length (sq_inQueue (c_queue st)) = n
      \<and> list_all (\<lambda>i. sq_inQueue (c_queue st) ! i = (i \<in> set q)) [0..<n]
      \<and> length r = n \<and> length settled = n \<and> list_all (\<lambda>u. u < n) q \<and> distinct q)"

definition cpp_context :: "Graph \<Rightarrow> nat list list \<Rightarrow> nat list \<Rightarrow> bool" where
  "cpp_context g adj degree =
     (well_formed g \<and> length adj = nodes g \<and> length degree = nodes g
      \<and> list_all (\<lambda>u. adj ! u = spec_neighbors g u \<and> degree ! u = spec_degree g u)
           [0..<nodes g])"

section \<open>Sample inputs\<close>

text \<open>Nodes 0 and 1 joined by an edge, and an isolated node 2.\<close>

definition isolated_node_graph :: Graph where
  "isolated_node_graph =
     \<lparr>nodes = 3, edges = [\<lparr>source = 0, target = 1\<rparr>, \<lparr>source = 1, target = 0\<rparr>]\<rparr>"

text \<open>The cycle 0 - 1 - 2 - 3 - 0 of the specification's scenario.\<close>

definition cycle_graph :: Graph where
  "cycle_graph =
     \<lparr>nodes = 4,
      edges = [\<lparr>source = 0, target = 1\<rparr>, \<lparr>source = 1, target = 0\<rparr>,
               \<lparr>source = 1, target = 2\<rparr>, \<lparr>source = 2, target = 1\<rparr>,
               \<lparr>source = 2, target = 3\<rparr>, \<lparr>source = 3, target = 2\<rparr>,
               \<lparr>source = 3, target = 0\<rparr>, \<lparr>source = 0, target = 3\<rparr>]\<rparr>"

text \<open>A node 0 with the two neighbours 1 and 2, arcs in both directions.\<close>

definition fork_graph :: Graph where
  "fork_graph =
     \<lparr>nodes = 3,
      edges = [\<lparr>source = 0, target = 1\<rparr>, \<lparr>source = 1, target = 0\<rparr>,
               \<lparr>source = 0, target = 2\<rparr>, \<lparr>source = 2, target = 0\<rparr>]\<rparr>"

text \<open>
  The path 1 - 0 - 2 - 3 with a self-loop at node 1, the arcs in the order in which the
  parser inserts them for the lines \<open>0 1\<close>, \<open>0 2\<close>, \<open>1 1\<close>, \<open>2 3\<close>.
\<close>

definition loop_path_graph :: Graph where
  "loop_path_graph =
     \<lparr>nodes = 4,
      edges = [\<lparr>source = 0, target = 1\<rparr>, \<lparr>source = 1, target = 0\<rparr>,
               \<lparr>source = 0, target = 2\<rparr>, \<lparr>source = 2, target = 0\<rparr>,
               \<lparr>source = 1, target = 1\<rparr>,
               \<lparr>source = 2, target = 3\<rparr>, \<lparr>source = 3, target = 2\<rparr>]\<rparr>"

text \<open>Draws of \<open>Math.random()\<close> that are all 0.\<close>

definition zero_draws :: "nat \<Rightarrow> real" where
  "zero_draws k = 0"

text \<open>Draws of \<open>Math.random()\<close> that are 0 twice and one half from then on.\<close>

definition late_draws :: "nat \<Rightarrow> real" where
  "late_draws k = (if k < 2 then 0 else 1 / 2)"

text \<open>Draws of \<open>Math.random()\<close> that are all one half.\<close>

definition half_draws :: "nat \<Rightarrow> real" where
  "half_draws k = 1 / 2"

text \<open>
  The generator of a C library that counts upwards; seeding it replaces its state by the
  seed.
\<close>

definition counting_srand :: "nat \<Rightarrow> nat \<Rightarrow> nat" where
  "counting_srand seed g = seed"

definition counting_rand :: "nat \<Rightarrow> nat \<times> nat" where
  "counting_rand g = (g, g + 1)"

text \<open>An environment in which the module loads and every draw is 0.\<close>

definition sample_environment :: "nat environment" where
  "sample_environment =
     \<lparr>wasm_loads = True, math_random = zero_draws, c_srand = counting_srand,
      c_rand = counting_rand, c_ambient = 0\<rparr>"

section \<open>Properties of the error metrics\<close>




section \<open>Properties of the graph parser\<close>

lemma digit_not_space: "is_digit c \<Longrightarrow> \<not> is_space c"
  by (auto simp: is_digit_def is_space_def)

lemma digit_not_sign: "is_digit c \<Longrightarrow> c \<noteq> CHR ''-'' \<and> c \<noteq> CHR ''+'' \<and> c \<noteq> CHR ''#''"
  by (auto simp: is_digit_def)

lemma parseInt_digits:
  assumes "d \<noteq> []" "list_all is_digit d"
  shows "parseInt d = Some (int (digits_value d))"
proof -
  obtain c r where d: "d = c # r" using assms(1) by (cases d) auto
  have c: "is_digit c" using assms(2) d by simp
  have tw: "takeWhile is_digit d = d"
    using assms(2) by (simp add: list_all_iff)
  have dw: "dropWhile is_space d = d"
    using d digit_not_space [OF c] by simp
  have sg: "(case d of [] \<Rightarrow> False | c # _ \<Rightarrow> c = CHR ''-'') = False"
    "(case d of [] \<Rightarrow> [] | c # r \<Rightarrow> if c = CHR ''-'' \<or> c = CHR ''+'' then r else d) = d"
    using d digit_not_sign [OF c] by simp_all
  show ?thesis
    unfolding parseInt_def Let_def dw sg tw using assms(1) by simp
qed

lemma split_ws_from_token:
  "list_all (\<lambda>c. \<not> is_space c) d \<Longrightarrow> d \<noteq> [] \<Longrightarrow>
   split_ws_from cur b (d @ rest) = split_ws_from (rev d @ cur) False rest"
proof (induction d arbitrary: cur b)
  case Nil
  then show ?case by simp
next
  case (Cons c d)
  show ?case
  proof (cases "d = []")
    case True
    with Cons.prems show ?thesis by simp
  next
    case False
    with Cons show ?thesis by simp
  qed
qed

lemma split_ws_from_run:
  "list_all is_space ws \<Longrightarrow> split_ws_from cur True (ws @ rest) = split_ws_from cur True rest"
  by (induction ws) auto

lemma split_ws_from_sep:
  "list_all is_space ws \<Longrightarrow> ws \<noteq> [] \<Longrightarrow>
   split_ws_from cur False (ws @ rest) = rev cur # split_ws_from [] True rest"
  by (cases ws) (auto simp: split_ws_from_run)

lemma split_ws_two_tokens:
  assumes "list_all is_digit d1" "d1 \<noteq> []" "list_all is_digit d2" "d2 \<noteq> []"
    "list_all is_space ws" "ws \<noteq> []"
  shows "split_ws (d1 @ ws @ d2) = [d1, d2]"
proof -
  have n1: "list_all (\<lambda>c. \<not> is_space c) d1" and n2: "list_all (\<lambda>c. \<not> is_space c) d2"
    using assms(1,3) by (auto simp: list_all_iff digit_not_space)
  have "split_ws (d1 @ ws @ d2) = split_ws_from (rev d1) False (ws @ d2)"
    using split_ws_from_token [OF n1 assms(2), of "[]" False "ws @ d2"] by (simp add: split_ws_def)
  also have "\<dots> = d1 # split_ws_from [] True (d2 @ [])"
    using split_ws_from_sep [OF assms(5,6), of "rev d1" d2] by simp
  also have "split_ws_from [] True (d2 @ []) = [d2]"
    using split_ws_from_token [OF n2 assms(4), of "[]" True "[]"] by simp
  finally show ?thesis .
qed

lemma parse_line_skipped:
  "is_skipped line \<Longrightarrow> parse_line st line = Inr (st\<lparr>lineNumber := lineNumber st + 1\<rparr>)"
  by (auto simp: is_skipped_def parse_line_def Let_def)

lemma parse_lines_skipped:
  "list_all is_skipped ls \<Longrightarrow>
   parse_lines st ls = Inr (st\<lparr>lineNumber := lineNumber st + length ls\<rparr>)"
  by (induction ls arbitrary: st) (auto simp: parse_line_skipped)

lemma parse_lines_append:
  "parse_lines st (xs @ ys) =
     (case parse_lines st xs of Inl e \<Rightarrow> Inl e | Inr st' \<Rightarrow> parse_lines st' ys)"
  by (induction xs arbitrary: st) (auto split: sum.splits)

lemma parse_line_metadata:
  assumes "positive_integer d1" "positive_integer d2" "list_all is_space ws" "ws \<noteq> []"
    "\<not> firstDataLineProcessed st"
  shows "parse_line st (d1 @ ws @ d2) =
     Inr (st\<lparr>lineNumber := lineNumber st + 1,
             declaredNodeCount := Some (int (digits_value d1)),
             declaredEdgeCount := Some (int (digits_value d2)),
             firstDataLineProcessed := True\<rparr>)"
proof -
  from assms(1) have d1: "d1 \<noteq> []" "list_all is_digit d1" "0 < digits_value d1"
    by (auto simp: positive_integer_def)
  from assms(2) have d2: "d2 \<noteq> []" "list_all is_digit d2" "0 < digits_value d2"
    by (auto simp: positive_integer_def)
  have parts: "split_ws (d1 @ ws @ d2) = [d1, d2]"
    using split_ws_two_tokens d1 d2 assms(3,4) by simp
  obtain c r where c: "d1 = c # r" "is_digit c"
    using d1 by (cases d1) auto
  have nh: "\<not> startsWith_hash (d1 @ ws @ d2)"
    using c digit_not_sign [of c] by (simp add: startsWith_hash_def)
  have meta: "metadata_of False [d1, d2] = Some (int (digits_value d1), int (digits_value d2))"
    using d1 d2 by (simp add: metadata_of_def parseInt_digits)
  show ?thesis
    using d1(1) nh parts meta assms(5) by (simp add: parse_line_def Let_def)
qed

text \<open>
  Claim C10. When the first line of the input that is neither blank nor a comment consists
  of exactly two positive integers, \<open>parseEdgeList\<close> consumes it as the metadata line:
  parsing goes on from a state that holds the two declared counts and no edge. Hence, when
  no other data line follows, as for the input \<open>1 2\<close>, the parser throws
  \<open>GraphParseError("No edges found in the file")\<close> and builds no one-edge graph.
\<close>

theorem metadata_line_consumed:
  assumes "lines_of content = pre @ (d1 @ ws @ d2) # rest"
    and "list_all is_skipped pre"
    and "positive_integer d1" and "positive_integer d2"
    and "list_all is_space ws" and "ws \<noteq> []"
  shows "parseEdgeList content =
           (case parse_lines (after_metadata (length pre + 1) d1 d2) rest of
              Inl e \<Rightarrow> Inl e | Inr st \<Rightarrow> parse_finish st)
         \<and> (list_all is_skipped rest \<longrightarrow>
              parseEdgeList content = Inl (GraphParseError ''No edges found in the file'' None))"
proof -
  let ?st0 = "initial_parse_state\<lparr>lineNumber := length pre\<rparr>"
  have pre: "parse_lines initial_parse_state pre = Inr ?st0"
    using parse_lines_skipped [OF assms(2), of initial_parse_state]
    by (simp add: initial_parse_state_def)
  have nf: "\<not> firstDataLineProcessed ?st0"
    by (simp add: initial_parse_state_def)
  have line: "parse_line ?st0 (d1 @ ws @ d2) = Inr (after_metadata (length pre + 1) d1 d2)"
    using parse_line_metadata [OF assms(3,4,5,6) nf]
    by (simp add: after_metadata_def initial_parse_state_def)
  have all: "parse_lines initial_parse_state (lines_of content) =
      parse_lines (after_metadata (length pre + 1) d1 d2) rest"
    using pre line by (simp add: assms(1) parse_lines_append)
  have first: "parseEdgeList content =
           (case parse_lines (after_metadata (length pre + 1) d1 d2) rest of
              Inl e \<Rightarrow> Inl e | Inr st \<Rightarrow> parse_finish st)"
    by (simp add: parseEdgeList_def all)
  have second: "parseEdgeList content = Inl (GraphParseError ''No edges found in the file'' None)"
    if "list_all is_skipped rest"
    using first parse_lines_skipped [OF that, of "after_metadata (length pre + 1) d1 d2"]
    by (simp add: parse_finish_def after_metadata_def)
  from first second show ?thesis by blast
qed

theorem metadata_line_consumed_witness:
  "lines_of ''1 2'' = [] @ (''1'' @ '' '' @ ''2'') # []
   \<and> list_all is_skipped [] \<and> positive_integer ''1'' \<and> positive_integer ''2''
   \<and> list_all is_space '' '' \<and> '' '' \<noteq> []
   \<and> parseEdgeList ''1 2'' = Inl (GraphParseError ''No edges found in the file'' None)"
proof -
  have l: "lines_of ''1 2'' = [] @ (''1'' @ '' '' @ ''2'') # []"
    by (simp add: lines_of_def trim_def is_space_def)
  have s: "list_all is_skipped []" by simp
  have p1: "positive_integer ''1''"
    by (simp add: positive_integer_def is_digit_def digits_value_def digit_value_def)
  have p2: "positive_integer ''2''"
    by (simp add: positive_integer_def is_digit_def digits_value_def digit_value_def)
  have w: "list_all is_space '' ''" by (simp add: is_space_def)
  have n: "'' '' \<noteq> []" by simp
  have "list_all is_skipped [] \<longrightarrow>
      parseEdgeList ''1 2'' = Inl (GraphParseError ''No edges found in the file'' None)"
    using metadata_line_consumed [OF l s p1 p2 w n] by (rule conjunct2)
  with s have "parseEdgeList ''1 2'' = Inl (GraphParseError ''No edges found in the file'' None)"
    by (rule rev_mp)
  with l s p1 p2 w n show ?thesis by blast
qed

text \<open>For contrast, the same edge written with 0-based ids is read as an edge.\<close>

lemma parseEdgeList_zero_based_edge:
  "parseEdgeList ''0 1'' =
     Inr \<lparr>nodes = 2, edges = [\<lparr>source = 0, target = 1\<rparr>, \<lparr>source = 1, target = 0\<rparr>],
          wasOneBased = False, originalMaxNodeId = 1\<rparr>"
  by (simp add: parseEdgeList_def lines_of_def trim_def is_space_def parse_line_def
      initial_parse_state_def startsWith_hash_def split_ws_def metadata_of_def parseInt_def
      is_digit_def digits_value_def digit_value_def parse_finish_def min_id_def max_id_def)

section \<open>Properties of the hook\<close>

lemma keys_tasks_delete: "fst ` set (tasks_delete m k) = fst ` set m - {k}"
  by (auto simp: tasks_delete_def image_iff)

lemma keys_tasks_set: "fst ` set (tasks_set m k x) = insert k (fst ` set m)"
proof -
  have "map fst (map (\<lambda>(k', x'). if k' = k then (k', x) else (k', x')) m) = map fst m"
    by (induction m) auto
  then have "map fst (tasks_set m k x) = (if k \<in> set (map fst m) then map fst m else map fst m @ [k])"
    by (simp add: tasks_set_def)
  then have "set (map fst (tasks_set m k x)) = insert k (set (map fst m))"
    by (auto split: if_splits)
  then show ?thesis by simp
qed

lemma map_of_absent: "k \<notin> fst ` set m \<Longrightarrow> map_of m k = None"
  by (simp add: map_of_eq_None_iff)

lemma hook_step_inv: "hook_inv st \<Longrightarrow> hook_inv (fst (hook_step st e))"
  by (cases e)
    (auto simp: hook_inv_def hook_onmessage_def tasks_delete_def
      split: option.splits WorkerResult.splits)

lemma hook_step_keys:
  assumes "tid \<notin> fst ` set (tasks st)" "\<not> is_compute_of tid e"
  shows "tid \<notin> fst ` set (tasks (fst (hook_step st e)))"
proof (cases e)
  case (Compute k x)
  with assms show ?thesis
    by (simp add: is_compute_of_def keys_tasks_set)
next
  case (Cancel k)
  with assms show ?thesis by (simp add: keys_tasks_delete)
next
  case (Arrives m)
  with assms show ?thesis
    by (auto simp: hook_onmessage_def keys_tasks_delete split: option.splits WorkerResult.splits)
qed (use assms in auto)

lemma hook_onmessage_task:
  "c \<in> set (snd (hook_onmessage st m)) \<Longrightarrow>
   callback_task c = result_task m \<and> result_task m \<in> fst ` set (tasks st)"
proof -
  assume c: "c \<in> set (snd (hook_onmessage st m))"
  then obtain x where x: "map_of (tasks st) (result_task m) = Some x"
    by (cases "map_of (tasks st) (result_task m)") (auto simp: hook_onmessage_def)
  then have "result_task m \<in> fst ` set (tasks st)"
    by (metis map_of_eq_None_iff option.distinct(1))
  moreover have "callback_task c = result_task m"
    using c x by (cases m) (auto simp: hook_onmessage_def split: if_splits)
  ultimately show ?thesis by simp
qed

lemma hook_step_silent:
  assumes "tid \<notin> fst ` set (tasks st)"
  shows "delivered_to tid (snd (hook_step st e)) = []"
proof (cases e)
  case (Arrives m)
  have "callback_task c \<noteq> tid" if "c \<in> set (snd (hook_onmessage st m))" for c
    using hook_onmessage_task [OF that] assms by auto
  then have "\<forall>c \<in> set (snd (hook_onmessage st m)). callback_task c \<noteq> tid"
    by blast
  then show ?thesis
    using Arrives by (simp add: delivered_to_def filter_empty_conv)
next
  case WorkerFails
  with assms show ?thesis
    by (auto simp: delivered_to_def filter_empty_conv image_iff)
qed (auto simp: delivered_to_def)

lemma hook_run_silent:
  "tid \<notin> fst ` set (tasks st) \<Longrightarrow> \<not> list_ex (is_compute_of tid) es \<Longrightarrow>
   delivered_to tid (snd (hook_run st es)) = []
   \<and> tid \<notin> fst ` set (tasks (fst (hook_run st es)))"
proof (induction es arbitrary: st)
  case Nil
  then show ?case by (simp add: delivered_to_def)
next
  case (Cons e es)
  from Cons.prems have ne: "\<not> is_compute_of tid e" and nes: "\<not> list_ex (is_compute_of tid) es"
    by simp_all
  have k: "tid \<notin> fst ` set (tasks (fst (hook_step st e)))"
    using hook_step_keys [OF Cons.prems(1) ne] .
  have s: "delivered_to tid (snd (hook_step st e)) = []"
    using hook_step_silent [OF Cons.prems(1)] .
  from Cons.IH [OF k nes] s show ?case
    by (simp add: split_beta delivered_to_def)
qed

lemma hook_run_inv: "hook_inv st \<Longrightarrow> hook_inv (fst (hook_run st es))"
  by (induction es arbitrary: st) (auto simp: split_beta hook_step_inv)

lemma hook_run_append:
  "hook_run st (xs @ ys) =
     (fst (hook_run (fst (hook_run st xs)) ys),
      snd (hook_run st xs) @ snd (hook_run (fst (hook_run st xs)) ys))"
  by (induction xs arbitrary: st) (auto simp: split_beta)

lemma cancel_removes:
  "hook_inv st \<Longrightarrow> tid \<notin> fst ` set (tasks (fst (hook_step st (Cancel tid))))"
  by (auto simp: hook_inv_def keys_tasks_delete)

text \<open>
  Claim C4. Once \<open>cancel(taskId)\<close> has run, the hook invokes no callback of that task any
  more, whatever the worker goes on posting: no progress, no result and no error, as long
  as \<open>compute\<close> does not draw the same identifier again. In particular a task that is
  started and cancelled at once never has a callback invoked.
\<close>

theorem cancelled_task_is_silent:
  assumes "\<not> list_ex (is_compute_of tid) post"
  shows "delivered_to tid
           (snd (hook_run (fst (hook_run hook_initial (pre @ [Cancel tid]))) post)) = []
         \<and> (\<not> list_ex (is_compute_of tid) pre \<longrightarrow>
              delivered_to tid
                (snd (hook_run hook_initial
                        (pre @ [Compute tid has_onProgress, Cancel tid] @ post))) = [])"
proof -
  have i0: "hook_inv hook_initial"
    by (simp add: hook_inv_def hook_initial_def)
  have gone: "tid \<notin> fst ` set (tasks (fst (hook_run st0 (xs @ [Cancel tid]))))"
    if "hook_inv st0" for st0 xs
    using cancel_removes [OF hook_run_inv [OF that, of xs], of tid]
    by (simp add: hook_run_append split_beta)
  have first: "delivered_to tid
      (snd (hook_run (fst (hook_run hook_initial (pre @ [Cancel tid]))) post)) = []"
    using hook_run_silent [OF gone [OF i0] assms] by simp
  have second: "delivered_to tid
      (snd (hook_run hook_initial (pre @ [Compute tid has_onProgress, Cancel tid] @ post))) = []"
    if np: "\<not> list_ex (is_compute_of tid) pre"
  proof -
    have a: "delivered_to tid (snd (hook_run hook_initial pre)) = []"
      using hook_run_silent [OF _ np, of hook_initial] by (simp add: hook_initial_def)
    let ?st = "fst (hook_run hook_initial (pre @ [Compute tid has_onProgress]))"
    have inv: "hook_inv ?st" using hook_run_inv [OF i0] .
    have b: "delivered_to tid (snd (hook_run hook_initial (pre @ [Compute tid has_onProgress]))) = []"
      using a by (simp add: hook_run_append delivered_to_def)
    have c: "delivered_to tid (snd (hook_run ?st ([Cancel tid] @ post))) = []"
      using hook_run_silent [OF gone [OF inv, of "[]"] assms]
      by (simp add: hook_run_append [of _ "[Cancel tid]" post] delivered_to_def split_beta)
    have "hook_run hook_initial (pre @ [Compute tid has_onProgress, Cancel tid] @ post) =
        hook_run hook_initial ((pre @ [Compute tid has_onProgress]) @ ([Cancel tid] @ post))"
      by simp
    then show ?thesis
      using b c
      by (simp only: hook_run_append [of _ "pre @ [Compute tid has_onProgress]"] snd_conv
          delivered_to_def filter_append) simp
  qed
  from first second show ?thesis by blast
qed

theorem cancelled_task_is_silent_witness:
  "\<not> list_ex (is_compute_of ''a'')
       [Arrives (PROGRESS ''a'' (Fin 50)), Arrives (RESULT ''a'' (Fin 1)), WorkerFails]
   \<and> \<not> list_ex (is_compute_of ''a'') [Mount, Compute ''b'' False]
   \<and> delivered_to ''a''
       (snd (hook_run hook_initial
          ([Mount, Compute ''b'' False] @ [Compute ''a'' True, Cancel ''a'']
             @ [Arrives (PROGRESS ''a'' (Fin 50)), Arrives (RESULT ''a'' (Fin 1)), WorkerFails]))) = []
   \<and> snd (hook_run hook_initial
          ([Mount, Compute ''b'' False] @ [Compute ''a'' True, Cancel ''a'']
             @ [Arrives (PROGRESS ''a'' (Fin 50)), Arrives (RESULT ''a'' (Fin 1)), WorkerFails]))
       = [OnError ''b'' ''Worker error occurred'']"
proof -
  have p: "\<not> list_ex (is_compute_of ''a'')
       [Arrives (PROGRESS ''a'' (Fin 50)), Arrives (RESULT ''a'' (Fin 1)), WorkerFails]"
    by (simp add: is_compute_of_def)
  have q: "\<not> list_ex (is_compute_of ''a'') [Mount, Compute ''b'' False]"
    by (simp add: is_compute_of_def)
  have r: "snd (hook_run hook_initial
          ([Mount, Compute ''b'' False] @ [Compute ''a'' True, Cancel ''a'']
             @ [Arrives (PROGRESS ''a'' (Fin 50)), Arrives (RESULT ''a'' (Fin 1)), WorkerFails]))
       = [OnError ''b'' ''Worker error occurred'']"
    by (simp add: hook_initial_def tasks_set_def tasks_delete_def hook_onmessage_def)
  have "\<not> list_ex (is_compute_of ''a'') [Mount, Compute ''b'' False] \<longrightarrow>
     delivered_to ''a''
       (snd (hook_run hook_initial
          ([Mount, Compute ''b'' False] @ [Compute ''a'' True, Cancel ''a'']
             @ [Arrives (PROGRESS ''a'' (Fin 50)), Arrives (RESULT ''a'' (Fin 1)), WorkerFails]))) = []"
    using cancelled_task_is_silent [OF p, of "[Mount, Compute ''b'' False]" True]
    by (rule conjunct2)
  with q have "delivered_to ''a''
       (snd (hook_run hook_initial
          ([Mount, Compute ''b'' False] @ [Compute ''a'' True, Cancel ''a'']
             @ [Arrives (PROGRESS ''a'' (Fin 50)), Arrives (RESULT ''a'' (Fin 1)), WorkerFails]))) = []"
    by (rule rev_mp)
  with p q r show ?thesis by blast
qed

section \<open>Adjacency lists and degrees\<close>

lemma count_degrees_foldl:
  "length (foldl (\<lambda>degree e. if source e < length degree
                         then degree[source e := degree ! source e + 1] else degree) d es) = length d
   \<and> (\<forall>u < length d.
        foldl (\<lambda>degree e. if source e < length degree
                         then degree[source e := degree ! source e + 1] else degree) d es ! u
          = d ! u + length (filter (\<lambda>e. source e = u) es))"
proof (induction es arbitrary: d)
  case Nil
  then show ?case by simp
next
  case (Cons e es)
  let ?d = "if source e < length d then d[source e := d ! source e + 1] else d"
  have l: "length ?d = length d" by simp
  from Cons.IH [of ?d] show ?case
    by (auto simp: nth_list_update)
qed

lemma length_count_degrees: "length (count_degrees n es) = n"
  using count_degrees_foldl [of "replicate n 0" es] by (simp add: count_degrees_def)

lemma nth_count_degrees:
  "u < n \<Longrightarrow> count_degrees n es ! u = length (filter (\<lambda>e. source e = u) es)"
  using count_degrees_foldl [of "replicate n 0" es] by (simp add: count_degrees_def)

lemma degree_get_count_degrees:
  "u < nodes g \<Longrightarrow> degree_get (count_degrees (nodes g) (edges g)) u = of_count (spec_degree g u)"
  by (simp add: degree_get_def length_count_degrees nth_count_degrees spec_degree_def
      spec_neighbors_def)

lemma build_adjacency_general:
  "list_all (\<lambda>e. source e < length adj) es \<Longrightarrow>
   \<exists>adj'. build_adjacency adj es = Inr adj' \<and> length adj' = length adj
     \<and> (\<forall>u < length adj. adj' ! u = adj ! u @ map target (filter (\<lambda>e. source e = u) es))"
proof (induction es arbitrary: adj)
  case Nil
  then show ?case by simp
next
  case (Cons e es)
  let ?adj = "adj[source e := adj ! source e @ [target e]]"
  from Cons.prems have se: "source e < length adj" and rest: "list_all (\<lambda>e. source e < length ?adj) es"
    by simp_all
  from Cons.IH [OF rest] obtain adj' where
    b: "build_adjacency ?adj es = Inr adj'" and l: "length adj' = length ?adj"
    and n: "\<forall>u < length ?adj. adj' ! u = ?adj ! u @ map target (filter (\<lambda>e. source e = u) es)"
    by blast
  have "adj' ! u = adj ! u @ map target (filter (\<lambda>e. source e = u) (e # es))"
    if "u < length adj" for u
    using n that by (auto simp: nth_list_update)
  with b l se show ?case by simp
qed

lemma build_adjacency_spec:
  assumes "well_formed g"
  shows "\<exists>adj. build_adjacency (replicate (nodes g) []) (edges g) = Inr adj
     \<and> length adj = nodes g \<and> (\<forall>u < nodes g. adj ! u = spec_neighbors g u)"
proof -
  have "list_all (\<lambda>e. source e < length (replicate (nodes g) ([]::nat list))) (edges g)"
    using assms by (simp add: well_formed_def list_all_iff)
  from build_adjacency_general [OF this] show ?thesis
    by (auto simp: spec_neighbors_def)
qed

lemma spec_neighbors_in_range:
  "well_formed g \<Longrightarrow> w \<in> set (spec_neighbors g u) \<Longrightarrow> w < nodes g"
  by (auto simp: well_formed_def spec_neighbors_def list_all_iff)

lemma spec_neighbors_degree:
  "w \<in> set (spec_neighbors g u) \<Longrightarrow> 0 < spec_degree g u"
  by (cases "spec_neighbors g u") (auto simp: spec_degree_def)

section \<open>The JavaScript push estimator and the push phase on a list\<close>

lemma push_neighbor_fifo:
  assumes "push_rel n st r settled q" "w < n" "u < n"
    and "\<forall>u < n. degree_get degree u = of_count (spec_degree g u)"
  shows "push_rel n (push_neighbor degree v rmax u st w)
           (fst (fifo_push_to g v rmax u (r, q) w)) settled (snd (fifo_push_to g v rmax u (r, q) w))
         \<and> pushCount (push_neighbor degree v rmax u st w) = pushCount st
         \<and> emitted (push_neighbor degree v rmax u st w) = emitted st"
  using assms
  by (auto simp: push_rel_def push_neighbor_def fifo_push_to_def f64_get_def f64_set_def Let_def)

lemma push_neighbors_fifo:
  assumes "\<forall>u < n. degree_get degree u = of_count (spec_degree g u)" "u < n"
  shows "list_all (\<lambda>w. w < n) ws \<Longrightarrow> push_rel n st r settled q \<Longrightarrow>
     push_rel n (foldl (push_neighbor degree v rmax u) st ws)
       (fst (foldl (fifo_push_to g v rmax u) (r, q) ws)) settled
       (snd (foldl (fifo_push_to g v rmax u) (r, q) ws))
     \<and> pushCount (foldl (push_neighbor degree v rmax u) st ws) = pushCount st
     \<and> emitted (foldl (push_neighbor degree v rmax u) st ws) = emitted st"
proof (induction ws arbitrary: st r q)
  case Nil
  then show ?case by simp
next
  case (Cons w ws)
  from Cons.prems have w: "w < n" and ws: "list_all (\<lambda>w. w < n) ws" by simp_all
  note step = push_neighbor_fifo [OF Cons.prems(2) w assms(2) assms(1), of v rmax]
  from step have rel: "push_rel n (push_neighbor degree v rmax u st w)
           (fst (fifo_push_to g v rmax u (r, q) w)) settled (snd (fifo_push_to g v rmax u (r, q) w))"
    by blast
  from Cons.IH [OF ws rel] step show ?case by simp
qed

lemma push_iteration_fifo:
  assumes ctx: "js_context g adj degree"
    and rel: "push_rel (nodes g) st r settled (u # rest)"
  shows "\<exists>st'. push_iteration adj degree v rmax pct st u rest = Inr st'
     \<and> push_rel (nodes g) st'
         ((fst (foldl (fifo_push_to g v rmax u) (r, rest) (spec_neighbors g u)))[u := Fin 0])
         (settled[u := n_add (settled ! u) (r ! u)])
         (snd (foldl (fifo_push_to g v rmax u) (r, rest) (spec_neighbors g u)))"
proof -
  let ?n = "nodes g"
  from rel have u: "u < ?n" and d: "u \<notin> set rest"
    by (simp_all add: push_rel_def)
  let ?st2 = "st\<lparr>queue := rest, inQueue := inQueue st - {u},
      p_vec := f64_set (p_vec st) u (n_add (f64_get (p_vec st) u) (f64_get (r_vec st) u))\<rparr>"
  have rel2: "push_rel ?n ?st2 r (settled[u := n_add (settled ! u) (r ! u)]) rest"
    using rel u d by (auto simp: push_rel_def f64_get_def f64_set_def)
  have ws: "list_all (\<lambda>w. w < ?n) (spec_neighbors g u)"
    using ctx spec_neighbors_in_range by (auto simp: js_context_def list_all_iff)
  have deg: "\<forall>u < ?n. degree_get degree u = of_count (spec_degree g u)"
    using ctx by (simp add: js_context_def)
  note f = push_neighbors_fifo [OF deg u ws rel2, of v rmax]
  have adj: "adj ! u = spec_neighbors g u" "u < length adj"
    using ctx u by (simp_all add: js_context_def)
  let ?st3 = "foldl (push_neighbor degree v rmax u) ?st2 (spec_neighbors g u)"
  let ?st4 = "?st3\<lparr>r_vec := f64_set (r_vec ?st3) u (Fin 0), pushCount := pushCount ?st3 + 1\<rparr>"
  let ?st5 = "if pushCount ?st4 mod 100 = 0 then ?st4\<lparr>emitted := emitted ?st4 @ [pct]\<rparr> else ?st4"
  have it: "push_iteration adj degree v rmax pct st u rest = Inr ?st5"
    using adj by (simp add: push_iteration_def Let_def)
  have "push_rel ?n ?st5
         ((fst (foldl (fifo_push_to g v rmax u) (r, rest) (spec_neighbors g u)))[u := Fin 0])
         (settled[u := n_add (settled ! u) (r ! u)])
         (snd (foldl (fifo_push_to g v rmax u) (r, rest) (spec_neighbors g u)))"
    using f u by (auto simp: push_rel_def f64_set_def)
  with it show ?thesis by blast
qed

lemmas push_loop_induct = push_loop.raw_induct [rotated 1, consumes 1, case_names step]

lemmas fifo_push_loop_induct = fifo_push_loop.raw_induct [rotated 1, consumes 1, case_names step]

lemma push_loop_to_fifo:
  assumes "push_loop adj degree v rmax pct st = Some res"
  shows "js_context g adj degree \<Longrightarrow> push_rel (nodes g) st r settled q \<Longrightarrow>
     \<exists>st'. res = Inr st' \<and> fifo_push_loop g v rmax r settled q = Some (p_vec st')"
  using assms
proof (induction adj degree v rmax pct st res arbitrary: r settled q rule: push_loop_induct)
  case (step loop adj degree v rmax pct st res)
  show ?case
  proof (cases q)
    case Nil
    with step.prems(2) have "queue st = []" "p_vec st = settled" by (simp_all add: push_rel_def)
    with step.hyps Nil show ?thesis
      by (auto simp: fifo_push_loop.simps [of _ _ _ _ _ "[]"])
  next
    case (Cons u rest)
    with step.prems(2) have q: "queue st = u # rest" by (simp add: push_rel_def)
    from push_iteration_fifo [OF step.prems(1), of st r settled u rest v rmax pct] step.prems(2) Cons
    obtain st1 where it: "push_iteration adj degree v rmax pct st u rest = Inr st1"
      and rel1: "push_rel (nodes g) st1
         ((fst (foldl (fifo_push_to g v rmax u) (r, rest) (spec_neighbors g u)))[u := Fin 0])
         (settled[u := n_add (settled ! u) (r ! u)])
         (snd (foldl (fifo_push_to g v rmax u) (r, rest) (spec_neighbors g u)))"
      by blast
    from step.hyps q it have "loop adj degree v rmax pct st1 = Some res" by simp
    from step.IH [OF this step.prems(1) rel1] show ?thesis
      using Cons by (simp add: fifo_push_loop.simps [of g v rmax r settled "u # rest"])
  qed
qed

lemma fifo_loop_to_push:
  assumes "fifo_push_loop g v rmax r settled q = Some ps"
  shows "js_context g adj degree \<Longrightarrow> push_rel (nodes g) st r settled q \<Longrightarrow>
     \<exists>st'. push_loop adj degree v rmax pct st = Some (Inr st') \<and> p_vec st' = ps"
  using assms
proof (induction g v rmax r settled q ps arbitrary: st rule: fifo_push_loop_induct)
  case (step loop g v rmax r settled q ps)
  show ?case
  proof (cases q)
    case Nil
    with step.prems(2) have "queue st = []" "p_vec st = settled" by (simp_all add: push_rel_def)
    with step.hyps Nil show ?thesis
      by (auto simp: push_loop.simps [of adj degree v rmax pct st])
  next
    case (Cons u rest)
    with step.prems(2) have q: "queue st = u # rest" by (simp add: push_rel_def)
    from push_iteration_fifo [OF step.prems(1), of st r settled u rest v rmax pct] step.prems(2) Cons
    obtain st1 where it: "push_iteration adj degree v rmax pct st u rest = Inr st1"
      and rel1: "push_rel (nodes g) st1
         ((fst (foldl (fifo_push_to g v rmax u) (r, rest) (spec_neighbors g u)))[u := Fin 0])
         (settled[u := n_add (settled ! u) (r ! u)])
         (snd (foldl (fifo_push_to g v rmax u) (r, rest) (spec_neighbors g u)))"
      by blast
    from step.hyps Cons have "loop g v rmax
         ((fst (foldl (fifo_push_to g v rmax u) (r, rest) (spec_neighbors g u)))[u := Fin 0])
         (settled[u := n_add (settled ! u) (r ! u)])
         (snd (foldl (fifo_push_to g v rmax u) (r, rest) (spec_neighbors g u))) = Some ps"
      by simp
    from step.IH [OF this step.prems(1) rel1] show ?thesis
      using q it by (simp add: push_loop.simps [of adj degree v rmax pct st])
  qed
qed

lemma push_loop_fifo:
  assumes "js_context g adj degree" "push_rel (nodes g) st r settled q"
  shows "(case push_loop adj degree v rmax pct st of
            None \<Rightarrow> fifo_push_loop g v rmax r settled q = None
          | Some res \<Rightarrow> \<exists>st'. res = Inr st' \<and> fifo_push_loop g v rmax r settled q = Some (p_vec st'))"
proof (cases "push_loop adj degree v rmax pct st")
  case None
  have "fifo_push_loop g v rmax r settled q = None"
  proof (cases "fifo_push_loop g v rmax r settled q")
    case (Some ps)
    from fifo_loop_to_push [OF Some assms, where pct = pct] None show ?thesis by simp
  qed simp
  with None show ?thesis by simp
next
  case (Some res)
  from push_loop_to_fifo [OF Some assms] Some show ?thesis by simp
qed

lemma push_start_rel:
  "seed < n \<Longrightarrow>
   push_rel n (push_start n seed v reps) ((replicate n (Fin 0))[seed := Fin 1])
     (replicate n (Fin 0)) (if seed = v then [] else [seed])"
  by (simp add: push_rel_def push_start_def f64_set_def)

lemma push_phase_fifo:
  assumes "js_context g adj degree" "seed < nodes g"
  shows "(case push_loop adj degree v rmax pct (push_start (nodes g) seed v reps) of
            None \<Rightarrow> fifo_push_phase g seed v rmax = None
          | Some res \<Rightarrow> \<exists>st'. res = Inr st' \<and> fifo_push_phase g seed v rmax = Some (p_vec st'))"
  unfolding fifo_push_phase_def
  using push_loop_fifo [OF assms(1) push_start_rel [OF assms(2)]] .

lemma js_context_built:
  assumes "well_formed g"
  shows "\<exists>adj. build_adjacency (replicate (nodes g) []) (edges g) = Inr adj
     \<and> js_context g adj (count_degrees (nodes g) (edges g))"
  using build_adjacency_spec [OF assms] assms
  by (auto simp: js_context_def degree_get_count_degrees)

lemma push_combine_spec:
  "s < nodes g \<Longrightarrow> t < nodes g \<Longrightarrow> length ps = nodes g \<Longrightarrow> length pt = nodes g \<Longrightarrow>
   push_combine (count_degrees (nodes g) (edges g)) s t ps pt = spec_combine g s t ps pt"
  by (simp add: push_combine_def spec_combine_def degree_get_count_degrees f64_get_def)

lemma fifo_push_loop_length:
  assumes "fifo_push_loop g v rmax r settled q = Some ps"
  shows "length settled = n \<Longrightarrow> length ps = n"
  using assms
proof (induction g v rmax r settled q ps rule: fifo_push_loop_induct)
  case (step loop g v rmax r settled q ps)
  show ?case
  proof (cases q)
    case Nil
    with step.hyps step.prems show ?thesis by simp
  next
    case (Cons u rest)
    with step.hyps have "loop g v rmax
         ((fst (foldl (fifo_push_to g v rmax u) (r, rest) (spec_neighbors g u)))[u := Fin 0])
         (settled[u := n_add (settled ! u) (r ! u)])
         (snd (foldl (fifo_push_to g v rmax u) (r, rest) (spec_neighbors g u))) = Some ps"
      by simp
    from step.IH [OF this] step.prems show ?thesis by simp
  qed
qed

lemma fifo_push_phase_length:
  "fifo_push_phase g seed v rmax = Some ps \<Longrightarrow> length ps = nodes g"
  unfolding fifo_push_phase_def by (erule fifo_push_loop_length) simp

lemma pushVSpJS_is_fifo_push:
  assumes "well_formed g" "s < nodes g" "t < nodes g"
  shows "pushVSpJS g s t v rmax = map_option Inr (fifo_push g s t v rmax)"
proof -
  from js_context_built [OF assms(1)] obtain adj where
    b: "build_adjacency (replicate (nodes g) []) (edges g) = Inr adj"
    and ctx: "js_context g adj (count_degrees (nodes g) (edges g))"
    by blast
  let ?deg = "count_degrees (nodes g) (edges g)"
  note ph1 = push_phase_fifo [OF ctx assms(2), of v rmax "Fin 25" "[]"]
  show ?thesis
  proof (cases "push_loop adj ?deg v rmax (Fin 25) (push_start (nodes g) s v [])")
    case None
    with ph1 b show ?thesis
      by (simp add: pushVSpJS_def pushVSpJS_run_def fifo_push_def)
  next
    case (Some res1)
    with ph1 obtain sts where r1: "res1 = Inr sts"
      and s1: "fifo_push_phase g s v rmax = Some (p_vec sts)" by auto
    note ph2 = push_phase_fifo [OF ctx assms(3), of v rmax "Fin 75" "emitted sts"]
    show ?thesis
    proof (cases "push_loop adj ?deg v rmax (Fin 75) (push_start (nodes g) t v (emitted sts))")
      case None
      with ph2 b Some r1 s1 show ?thesis
        by (simp add: pushVSpJS_def pushVSpJS_run_def fifo_push_def)
    next
      case (Some res2)
      with ph2 obtain stt where r2: "res2 = Inr stt"
        and s2: "fifo_push_phase g t v rmax = Some (p_vec stt)" by auto
      have l1: "length (p_vec sts) = nodes g"
        using fifo_push_phase_length [OF s1] .
      have l2: "length (p_vec stt) = nodes g"
        using fifo_push_phase_length [OF s2] .
      from b \<open>push_loop adj ?deg v rmax (Fin 25) (push_start (nodes g) s v []) = Some res1\<close>
        r1 Some r2 s1 s2 push_combine_spec [OF assms(2,3) l1 l2]
      show ?thesis
        by (simp add: pushVSpJS_def pushVSpJS_run_def fifo_push_def)
    qed
  qed
qed

section \<open>Invariants of a push phase\<close>

lemma fifo_push_to_preserves:
  assumes add: "\<And>x y. P x \<Longrightarrow> P y \<Longrightarrow> P (n_add x y)"
    and dvd: "\<And>x d. P x \<Longrightarrow> 0 < d \<Longrightarrow> P (n_div x (of_count d))"
    and "length r = n" "list_all P r" "list_all (\<lambda>u. u < n) q" "u < n" "w < n"
    "0 < spec_degree g u"
  shows "length (fst (fifo_push_to g v rmax u (r, q) w)) = n
     \<and> list_all P (fst (fifo_push_to g v rmax u (r, q) w))
     \<and> list_all (\<lambda>u. u < n) (snd (fifo_push_to g v rmax u (r, q) w))"
proof -
  have pr: "P (r ! w)" "P (r ! u)"
    using assms(3,4,6,7) by (simp_all add: list_all_length)
  have "P (n_add (r ! w) (n_div (r ! u) (of_count (spec_degree g u))))"
    using add [OF pr(1) dvd [OF pr(2) assms(8)]] .
  then have "list_all P (r[w := n_add (r ! w) (n_div (r ! u) (of_count (spec_degree g u)))])"
    using assms(4) by (auto simp: list_all_iff dest: set_update_subset_insert [THEN subsetD])
  with assms(3,5,7) show ?thesis
    by (simp add: fifo_push_to_def Let_def assms(4))
qed

lemma fifo_push_fold_preserves:
  assumes add: "\<And>x y. P x \<Longrightarrow> P y \<Longrightarrow> P (n_add x y)"
    and dvd: "\<And>x d. P x \<Longrightarrow> 0 < d \<Longrightarrow> P (n_div x (of_count d))"
    and "u < n"
  shows "length r = n \<Longrightarrow> list_all P r \<Longrightarrow> list_all (\<lambda>u. u < n) q \<Longrightarrow>
     list_all (\<lambda>w. w < n) ws \<Longrightarrow> (ws \<noteq> [] \<longrightarrow> 0 < spec_degree g u) \<Longrightarrow>
     length (fst (foldl (fifo_push_to g v rmax u) (r, q) ws)) = n
     \<and> list_all P (fst (foldl (fifo_push_to g v rmax u) (r, q) ws))
     \<and> list_all (\<lambda>u. u < n) (snd (foldl (fifo_push_to g v rmax u) (r, q) ws))"
proof (induction ws arbitrary: r q)
  case Nil
  then show ?case by simp
next
  case (Cons w ws)
  from Cons.prems have w: "w < n" and ws: "list_all (\<lambda>w. w < n) ws"
    and d: "0 < spec_degree g u" by simp_all
  note s = fifo_push_to_preserves [of P r n q u w g v rmax, OF add dvd Cons.prems(1,2,3) assms(3) w d]
  obtain r' q' where rq: "fifo_push_to g v rmax u (r, q) w = (r', q')"
    by (cases "fifo_push_to g v rmax u (r, q) w")
  from s rq have s': "length r' = n" "list_all P r'" "list_all (\<lambda>u. u < n) q'" by simp_all
  from Cons.IH [OF s' ws] d rq show ?case by simp
qed

lemma fifo_push_loop_preserves:
  assumes add: "\<And>x y. P x \<Longrightarrow> P y \<Longrightarrow> P (n_add x y)"
    and dvd: "\<And>x d. P x \<Longrightarrow> 0 < d \<Longrightarrow> P (n_div x (of_count d))"
    and zero: "P (Fin 0)"
    and run: "fifo_push_loop g v rmax r settled q = Some ps"
  shows "well_formed g \<Longrightarrow> length r = nodes g \<Longrightarrow> length settled = nodes g \<Longrightarrow>
     list_all (\<lambda>u. u < nodes g) q \<Longrightarrow> list_all P r \<Longrightarrow> list_all P settled \<Longrightarrow> list_all P ps"
  using run
proof (induction g v rmax r settled q ps rule: fifo_push_loop_induct)
  case (step loop g v rmax r settled q ps)
  show ?case
  proof (cases q)
    case Nil
    with step.hyps step.prems show ?thesis by simp
  next
    case (Cons u rest)
    let ?f = "foldl (fifo_push_to g v rmax u) (r, rest) (spec_neighbors g u)"
    from step.prems Cons have u: "u < nodes g" and rest: "list_all (\<lambda>u. u < nodes g) rest"
      by simp_all
    have ws: "list_all (\<lambda>w. w < nodes g) (spec_neighbors g u)"
      using step.prems(1) spec_neighbors_in_range by (auto simp: list_all_iff)
    have d: "spec_neighbors g u \<noteq> [] \<longrightarrow> 0 < spec_degree g u"
      by (simp add: spec_degree_def)
    note f = fifo_push_fold_preserves [of P u "nodes g" r rest "spec_neighbors g u" g v rmax,
        OF add dvd u step.prems(2) step.prems(5) rest ws d]
    have r': "list_all P ((fst ?f)[u := Fin 0])"
      using f zero by (auto simp: list_all_iff dest: set_update_subset_insert [THEN subsetD])
    have "P (n_add (settled ! u) (r ! u))"
      using add step.prems(2,3,5,6) u by (simp add: list_all_length)
    then have s': "list_all P (settled[u := n_add (settled ! u) (r ! u)])"
      using step.prems(6) by (auto simp: list_all_iff dest: set_update_subset_insert [THEN subsetD])
    from step.hyps Cons have "loop g v rmax ((fst ?f)[u := Fin 0])
         (settled[u := n_add (settled ! u) (r ! u)]) (snd ?f) = Some ps"
      by simp
    from step.IH [OF this step.prems(1)] f r' s' step.prems(3) show ?thesis by simp
  qed
qed

lemma fifo_push_phase_preserves:
  assumes add: "\<And>x y. P x \<Longrightarrow> P y \<Longrightarrow> P (n_add x y)"
    and dvd: "\<And>x d. P x \<Longrightarrow> 0 < d \<Longrightarrow> P (n_div x (of_count d))"
    and zero: "P (Fin 0)" and one: "P (Fin 1)"
    and run: "fifo_push_phase g seed v rmax = Some ps"
    and wf: "well_formed g" and seed: "seed < nodes g"
  shows "list_all P ps"
proof -
  have r: "list_all P ((replicate (nodes g) (Fin 0))[seed := Fin 1])"
    using zero one by (auto simp: list_all_iff dest: set_update_subset_insert [THEN subsetD])
  have s: "list_all P (replicate (nodes g) (Fin 0))"
    using zero by (simp add: list_all_iff)
  have q: "list_all (\<lambda>u. u < nodes g) (if seed = v then [] else [seed])"
    using seed by simp
  show ?thesis
    using fifo_push_loop_preserves [of P, OF add dvd zero run [unfolded fifo_push_phase_def] wf _ _ q r s]
    by simp
qed

lemma finite_add: "finite_number x \<Longrightarrow> finite_number y \<Longrightarrow> finite_number (n_add x y)"
  by (cases x; cases y) simp_all

lemma finite_div: "finite_number x \<Longrightarrow> 0 < d \<Longrightarrow> finite_number (n_div x (of_count d))"
  by (cases x) (simp_all add: of_count_def)

lemma not_negative_add: "not_negative x \<Longrightarrow> not_negative y \<Longrightarrow> not_negative (n_add x y)"
  by (cases x; cases y) simp_all

lemma not_negative_div: "not_negative x \<Longrightarrow> not_negative (n_div x (of_count d))"
  by (cases x) (simp_all add: of_count_def)

lemma fifo_push_phase_finite:
  "fifo_push_phase g seed v rmax = Some ps \<Longrightarrow> well_formed g \<Longrightarrow> seed < nodes g \<Longrightarrow>
   list_all finite_number ps"
  by (rule fifo_push_phase_preserves [of finite_number]) (simp_all add: finite_add finite_div)

lemma fifo_push_phase_not_negative:
  "fifo_push_phase g seed v rmax = Some ps \<Longrightarrow> well_formed g \<Longrightarrow> seed < nodes g \<Longrightarrow>
   list_all not_negative ps"
  by (rule fifo_push_phase_preserves [of not_negative])
    (simp_all add: not_negative_add not_negative_div)

lemma positive_degree_in_range:
  "well_formed g \<Longrightarrow> spec_degree g u \<noteq> 0 \<Longrightarrow> u < nodes g"
proof -
  assume wf: "well_formed g" and d: "spec_degree g u \<noteq> 0"
  then obtain e where "e \<in> set (edges g)" "source e = u"
    by (auto simp: spec_degree_def spec_neighbors_def filter_empty_conv)
  with wf show ?thesis by (auto simp: well_formed_def list_all_iff)
qed

lemma self_combine_zero:
  assumes "finite_number x" "d \<noteq> 0"
  shows "n_sub (n_sub (n_add (n_div x (of_count d)) (n_div x (of_count d)))
                      (n_div x (of_count d))) (n_div x (of_count d)) = Fin 0"
  using assms by (cases x) (simp_all add: of_count_def n_sub_def)

lemma div_zero_cases: "not_negative x \<Longrightarrow> n_div x (Fin 0) = NaN \<or> n_div x (Fin 0) = PInf"
  by (cases x) auto

lemma combine_nan_left:
  assumes "a = NaN \<or> a = PInf" "c = NaN \<or> c = PInf" "not_negative b"
  shows "n_sub (n_sub (n_add a b) c) d = NaN"
  using assms by (cases b) (auto simp: n_sub_def)

lemma combine_nan_right:
  assumes "b = NaN \<or> b = PInf" "d = NaN \<or> d = PInf" "not_negative a" "not_negative c"
  shows "n_sub (n_sub (n_add a b) c) d = NaN"
  using assms by (cases a; cases c) (auto simp: n_sub_def)

lemma walk_combine_nan_left:
  assumes "a = NaN \<or> a = PInf" "c = NaN \<or> c = PInf" "not_negative b"
  shows "n_add (n_sub (n_sub a b) c) d = NaN"
  using assms by (cases b) (auto simp: n_sub_def)

lemma walk_combine_nan_right:
  assumes "b = NaN \<or> b = PInf" "d = NaN \<or> d = PInf" "not_negative a" "not_negative c"
  shows "n_add (n_sub (n_sub a b) c) d = NaN"
  using assms by (cases a; cases c) (auto simp: n_sub_def)

section \<open>The combination formula\<close>

lemma well_formed_isolated_node_graph: "well_formed isolated_node_graph"
  by (simp add: well_formed_def isolated_node_graph_def)

lemma well_formed_cycle_graph: "well_formed cycle_graph"
  by (simp add: well_formed_def cycle_graph_def)

text \<open>
  In a graph without self-loops a neighbour is never the node being processed, so the
  phase of the specification and the phase on the queue of the implementations take the
  same steps.
\<close>

lemma no_self_loops_neighbors: "no_self_loops g \<Longrightarrow> u \<notin> set (spec_neighbors g u)"
  by (auto simp: no_self_loops_def spec_neighbors_def list_all_iff)

lemma spec_push_to_other:
  "w \<noteq> u \<Longrightarrow> spec_push_to g v rmax u rq w = fifo_push_to g v rmax u rq w"
  by (simp add: spec_push_to_def fifo_push_to_def)

lemma spec_push_fold_others:
  "u \<notin> set ws \<Longrightarrow>
     foldl (spec_push_to g v rmax u) rq ws = foldl (fifo_push_to g v rmax u) rq ws"
  by (induction ws arbitrary: rq) (simp_all add: spec_push_to_other)

lemmas spec_push_loop_induct = spec_push_loop.raw_induct [rotated 1, consumes 1, case_names step]

lemma fifo_loop_to_spec_loop:
  assumes "fifo_push_loop g v rmax r settled q = Some ps"
  shows "no_self_loops g \<Longrightarrow> spec_push_loop g v rmax r settled q = Some ps"
  using assms
proof (induction g v rmax r settled q ps rule: fifo_push_loop_induct)
  case (step loop g v rmax r settled q ps)
  show ?case
  proof (cases q)
    case Nil
    with step.hyps show ?thesis by (simp add: spec_push_loop.simps [of _ _ _ _ _ "[]"])
  next
    case (Cons u rest)
    with step.hyps have "loop g v rmax
         ((fst (foldl (fifo_push_to g v rmax u) (r, rest) (spec_neighbors g u)))[u := Fin 0])
         (settled[u := n_add (settled ! u) (r ! u)])
         (snd (foldl (fifo_push_to g v rmax u) (r, rest) (spec_neighbors g u))) = Some ps"
      by simp
    from step.IH [OF this step.prems] show ?thesis
      using Cons spec_push_fold_others [OF no_self_loops_neighbors [OF step.prems]]
      by (simp add: spec_push_loop.simps [of g v rmax r settled "u # rest"])
  qed
qed

lemma spec_loop_to_fifo_loop:
  assumes "spec_push_loop g v rmax r settled q = Some ps"
  shows "no_self_loops g \<Longrightarrow> fifo_push_loop g v rmax r settled q = Some ps"
  using assms
proof (induction g v rmax r settled q ps rule: spec_push_loop_induct)
  case (step loop g v rmax r settled q ps)
  show ?case
  proof (cases q)
    case Nil
    with step.hyps show ?thesis by (simp add: fifo_push_loop.simps [of _ _ _ _ _ "[]"])
  next
    case (Cons u rest)
    with step.hyps have "loop g v rmax
         ((fst (foldl (spec_push_to g v rmax u) (r, rest) (spec_neighbors g u)))[u := Fin 0])
         (settled[u := n_add (settled ! u) (r ! u)])
         (snd (foldl (spec_push_to g v rmax u) (r, rest) (spec_neighbors g u))) = Some ps"
      by simp
    from step.IH [OF this step.prems] show ?thesis
      using Cons spec_push_fold_others [OF no_self_loops_neighbors [OF step.prems]]
      by (simp add: fifo_push_loop.simps [of g v rmax r settled "u # rest"])
  qed
qed

lemma spec_push_phase_without_self_loops:
  assumes "no_self_loops g"
  shows "spec_push_phase g seed v rmax = fifo_push_phase g seed v rmax"
proof (cases "fifo_push_phase g seed v rmax")
  case (Some ps)
  then show ?thesis
    unfolding spec_push_phase_def fifo_push_phase_def
    using fifo_loop_to_spec_loop [OF _ assms] by simp
next
  case None
  show ?thesis
  proof (cases "spec_push_phase g seed v rmax")
    case (Some ps)
    then have "fifo_push_phase g seed v rmax = Some ps"
      unfolding spec_push_phase_def fifo_push_phase_def
      using spec_loop_to_fifo_loop [OF _ assms] by simp
    with None show ?thesis by simp
  qed (simp add: None)
qed

lemma no_self_loops_cycle_graph: "no_self_loops cycle_graph"
  by (simp add: no_self_loops_def cycle_graph_def)

text \<open>
  Claim C5, as the code has it. On a graph whose arcs join its own nodes and that has no
  self-loop, with \<open>degree(s)\<close> and \<open>degree(t)\<close> not zero, \<open>pushVSpJS\<close> returns exactly
  \<open>settled_from_s[s]/degree(s) + settled_from_t[t]/degree(t) - settled_from_s[t]/degree(s)
  - settled_from_t[s]/degree(t)\<close> for the settled vectors of the specification's two push
  phases, and it returns nothing exactly when one of the two phases does not end.
\<close>

theorem pushVSpJS_combines_spec_phases_without_self_loops:
  assumes "well_formed g" and "no_self_loops g"
    and "spec_degree g s \<noteq> 0" and "spec_degree g t \<noteq> 0"
  shows "pushVSpJS g s t v rmax =
     (case spec_push_phase g s v rmax of
        None \<Rightarrow> None
      | Some settled_from_s \<Rightarrow>
          (case spec_push_phase g t v rmax of
             None \<Rightarrow> None
           | Some settled_from_t \<Rightarrow>
               Some (Inr (n_sub (n_sub (n_add
                   (n_div (settled_from_s ! s) (of_count (spec_degree g s)))
                   (n_div (settled_from_t ! t) (of_count (spec_degree g t))))
                   (n_div (settled_from_s ! t) (of_count (spec_degree g s))))
                   (n_div (settled_from_t ! s) (of_count (spec_degree g t)))))))"
proof -
  have s: "s < nodes g" and t: "t < nodes g"
    using assms positive_degree_in_range by blast+
  show ?thesis
    unfolding pushVSpJS_is_fifo_push [OF assms(1) s t]
      spec_push_phase_without_self_loops [OF assms(2)]
    by (simp add: fifo_push_def spec_combine_def split: option.splits)
qed

theorem pushVSpJS_combines_spec_phases_without_self_loops_witness:
  "well_formed cycle_graph \<and> no_self_loops cycle_graph
   \<and> spec_degree cycle_graph 0 \<noteq> 0 \<and> spec_degree cycle_graph 1 \<noteq> 0
   \<and> spec_push_phase cycle_graph 0 2 (Fin (1 / 10))
       = Some [Fin (7 / 4), Fin (3 / 4), Fin 0, Fin (3 / 4)]
   \<and> spec_push_phase cycle_graph 1 2 (Fin (1 / 10))
       = Some [Fin (3 / 4), Fin (5 / 4), Fin 0, Fin (1 / 4)]
   \<and> pushVSpJS cycle_graph 0 1 2 (Fin (1 / 10)) = Some (Inr (Fin (3 / 4)))"
proof -
  have w: "well_formed cycle_graph" by (rule well_formed_cycle_graph)
  have l: "no_self_loops cycle_graph" by (rule no_self_loops_cycle_graph)
  have d0: "spec_degree cycle_graph 0 \<noteq> 0" by code_simp
  have d1: "spec_degree cycle_graph 1 \<noteq> 0" by code_simp
  have p0: "spec_push_phase cycle_graph 0 2 (Fin (1 / 10))
       = Some [Fin (7 / 4), Fin (3 / 4), Fin 0, Fin (3 / 4)]" by code_simp
  have p1: "spec_push_phase cycle_graph 1 2 (Fin (1 / 10))
       = Some [Fin (3 / 4), Fin (5 / 4), Fin 0, Fin (1 / 4)]" by code_simp
  have d0': "spec_degree cycle_graph 0 = 2" by code_simp
  have d1': "spec_degree cycle_graph 1 = 2" by code_simp
  have "pushVSpJS cycle_graph 0 1 2 (Fin (1 / 10)) = Some (Inr (Fin (3 / 4)))"
    unfolding pushVSpJS_combines_spec_phases_without_self_loops
        [OF w l d0 d1, of 2 "Fin (1 / 10)"] p0 p1 d0' d1'
    by (simp add: of_count_def n_sub_def)
  with w l d0 d1 p0 p1 show ?thesis by blast
qed

text \<open>
  The claim as stated fails on a graph with a self-loop. The code removes the mark of a
  node when it dequeues it, so the push along the self-loop enqueues the node again while
  it is being processed, and the node is later processed once more, with whatever residual
  it has received in between, even one below the threshold. On the path 1 - 0 - 2 - 3 with a
  self-loop at node 1, landmark 2 and \<open>rmax = 1/5\<close>, the phase of the specification from
  node 1 settles 1 at node 1, and that of the code \<open>5/4\<close>: \<open>pushVSpJS\<close> returns \<open>13/8\<close>,
  and the formula on the settled vectors of the specification's phases gives \<open>3/2\<close>.
\<close>

theorem pushVSpJS_self_loop_counterexample:
  "well_formed loop_path_graph
   \<and> spec_degree loop_path_graph 1 = 2 \<and> spec_degree loop_path_graph 3 = 1
   \<and> spec_push_phase loop_path_graph 1 2 (Fin (1 / 5))
       = Some [Fin (1 / 2), Fin 1, Fin 0, Fin 0]
   \<and> spec_push_phase loop_path_graph 3 2 (Fin (1 / 5))
       = Some [Fin 0, Fin 0, Fin 0, Fin 1]
   \<and> spec_combine loop_path_graph 1 3 [Fin (1 / 2), Fin 1, Fin 0, Fin 0]
        [Fin 0, Fin 0, Fin 0, Fin 1] = Fin (3 / 2)
   \<and> pushVSpJS loop_path_graph 1 3 2 (Fin (1 / 5)) = Some (Inr (Fin (13 / 8)))"
  by code_simp

text \<open>The graph of the counterexample is what the parser makes of four lines of text.\<close>

lemma parseEdgeList_loop_path_graph:
  "parseEdgeList ''0 1\<newline>0 2\<newline>1 1\<newline>2 3'' =
     Inr \<lparr>nodes = nodes loop_path_graph, edges = edges loop_path_graph,
          wasOneBased = False, originalMaxNodeId = 3\<rparr>"
  by code_simp

section \<open>Self-distance of the push estimator\<close>

lemma fifo_push_self_zero:
  assumes wf: "well_formed g" and d: "spec_degree g s \<noteq> 0"
    and run: "fifo_push g s s v rmax = Some x"
  shows "x = Fin 0"
proof -
  have s: "s < nodes g" using positive_degree_in_range [OF wf d] .
  from run obtain ps where ps: "fifo_push_phase g s v rmax = Some ps"
    and x: "x = spec_combine g s s ps ps"
    by (auto simp: fifo_push_def split: option.splits)
  have "list_all finite_number ps" using fifo_push_phase_finite [OF ps wf s] .
  moreover have "length ps = nodes g" using fifo_push_phase_length [OF ps] .
  ultimately have "finite_number (ps ! s)" using s by (simp add: list_all_length)
  from self_combine_zero [OF this d] x show ?thesis by (simp add: spec_combine_def)
qed

text \<open>
  On the graph with the isolated node 2 as landmark, a push phase from node 0 moves the
  whole residual between the nodes 0 and 1 for ever.
\<close>

lemma fifo_push_loop_unreachable_landmark:
  assumes "fifo_push_loop g v rmax r settled q = Some ps"
  shows "g = isolated_node_graph \<Longrightarrow> v = 2 \<Longrightarrow> rmax = Fin (1 / 10) \<Longrightarrow>
     (r = [Fin 1, Fin 0, Fin 0] \<and> q = [0]) \<or> (r = [Fin 0, Fin 1, Fin 0] \<and> q = [1]) \<Longrightarrow> False"
  using assms
proof (induction g v rmax r settled q ps rule: fifo_push_loop_induct)
  case (step loop g v rmax r settled q ps)
  have n0: "spec_neighbors isolated_node_graph 0 = [1]"
    and n1: "spec_neighbors isolated_node_graph (Suc 0) = [0]"
    by (simp_all add: spec_neighbors_def isolated_node_graph_def)
  have d0: "spec_degree isolated_node_graph 0 = 1"
    and d1: "spec_degree isolated_node_graph (Suc 0) = 1"
    by (simp_all add: spec_degree_def spec_neighbors_def isolated_node_graph_def)
  from step.prems(4) show ?case
  proof
    assume a: "r = [Fin 1, Fin 0, Fin 0] \<and> q = [0]"
    with step.hyps step.prems(1,2,3)
    have "loop g v rmax [Fin 0, Fin 1, Fin 0] (settled[0 := n_add (settled ! 0) (Fin 1)]) [1] = Some ps"
      by (simp add: n0 d0 d1 fifo_push_to_def of_count_def n_gt_def Let_def)
    from step.IH [OF this step.prems(1,2,3)] show False by simp
  next
    assume a: "r = [Fin 0, Fin 1, Fin 0] \<and> q = [1]"
    with step.hyps step.prems(1,2,3)
    have "loop g v rmax [Fin 1, Fin 0, Fin 0] (settled[1 := n_add (settled ! 1) (Fin 1)]) [0] = Some ps"
      by (simp add: n1 d0 d1 fifo_push_to_def of_count_def n_gt_def Let_def)
    from step.IH [OF this step.prems(1,2,3)] show False by simp
  qed
qed

lemma fifo_push_phase_unreachable_landmark:
  "fifo_push_phase isolated_node_graph 0 2 (Fin (1 / 10)) = None"
proof (cases "fifo_push_phase isolated_node_graph 0 2 (Fin (1 / 10))")
  case (Some ps)
  then have "fifo_push_loop isolated_node_graph 2 (Fin (1 / 10)) [Fin 1, Fin 0, Fin 0]
      [Fin 0, Fin 0, Fin 0] [0] = Some ps"
    by (simp add: fifo_push_phase_def isolated_node_graph_def numeral_3_eq_3)
  from fifo_push_loop_unreachable_landmark [OF this] show ?thesis by simp
qed simp

text \<open>
  Claim C6, as the code has it. For a node \<open>s\<close> with at least one outgoing arc, in a graph
  whose arcs join its own nodes, the push estimator applied with identical source and
  target returns exactly zero whenever it returns, for every landmark and every \<open>rmax\<close>.
\<close>

theorem pushVSpJS_self_distance:
  assumes "well_formed g" and "spec_degree g s \<noteq> 0"
  shows "pushVSpJS g s s v rmax = None \<or> pushVSpJS g s s v rmax = Some (Inr (Fin 0))"
proof -
  have s: "s < nodes g" using positive_degree_in_range [OF assms] .
  show ?thesis
  proof (cases "fifo_push g s s v rmax")
    case None
    then show ?thesis by (simp add: pushVSpJS_is_fifo_push [OF assms(1) s s])
  next
    case (Some x)
    from fifo_push_self_zero [OF assms Some] Some show ?thesis
      by (simp add: pushVSpJS_is_fifo_push [OF assms(1) s s])
  qed
qed

theorem pushVSpJS_self_distance_witness:
  "well_formed isolated_node_graph \<and> spec_degree isolated_node_graph 0 \<noteq> 0
   \<and> pushVSpJS isolated_node_graph 0 0 1 (Fin (1 / 10)) \<noteq> None
   \<and> pushVSpJS isolated_node_graph 0 0 1 (Fin (1 / 10)) = Some (Inr (Fin 0))"
proof -
  have w: "well_formed isolated_node_graph" by (rule well_formed_isolated_node_graph)
  have d: "spec_degree isolated_node_graph 0 \<noteq> 0" by code_simp
  have n: "pushVSpJS isolated_node_graph 0 0 1 (Fin (1 / 10)) \<noteq> None" by code_simp
  from pushVSpJS_self_distance [OF w d, of 1 "Fin (1 / 10)"] n
  have "pushVSpJS isolated_node_graph 0 0 1 (Fin (1 / 10)) = Some (Inr (Fin 0))" by blast
  with w d n show ?thesis by blast
qed

text \<open>
  The claim as stated fails twice: for the isolated node 2 the estimate is not-a-number,
  and with the unreachable landmark 2 the estimator does not return.
\<close>

theorem pushVSpJS_self_distance_counterexample:
  "pushVSpJS isolated_node_graph 2 2 1 (Fin (1 / 10)) = Some (Inr NaN)
   \<and> pushVSpJS isolated_node_graph 0 0 2 (Fin (1 / 10)) = None"
proof
  show "pushVSpJS isolated_node_graph 2 2 1 (Fin (1 / 10)) = Some (Inr NaN)"
    by code_simp
  have "fifo_push isolated_node_graph 0 0 2 (Fin (1 / 10)) = None"
    by (simp add: fifo_push_def fifo_push_phase_unreachable_landmark)
  then show "pushVSpJS isolated_node_graph 0 0 2 (Fin (1 / 10)) = None"
    using pushVSpJS_is_fifo_push [OF well_formed_isolated_node_graph, of 0 0 2 "Fin (1 / 10)"]
    by (simp add: isolated_node_graph_def)
qed

section \<open>Nodes of degree zero\<close>

lemma pushVSpJS_zero_degree:
  assumes wf: "well_formed g" and s: "s < nodes g" and t: "t < nodes g"
    and d: "spec_degree g s = 0 \<or> spec_degree g t = 0"
  shows "pushVSpJS g s t v rmax = None \<or> pushVSpJS g s t v rmax = Some (Inr NaN)"
proof (cases "fifo_push g s t v rmax")
  case None
  then show ?thesis by (simp add: pushVSpJS_is_fifo_push [OF wf s t])
next
  case (Some x)
  then obtain ps pt where ps: "fifo_push_phase g s v rmax = Some ps"
    and pt: "fifo_push_phase g t v rmax = Some pt"
    and x: "x = spec_combine g s t ps pt"
    by (auto simp: fifo_push_def split: option.splits)
  have nps: "list_all not_negative ps" and npt: "list_all not_negative pt"
    using fifo_push_phase_not_negative ps pt wf s t by blast+
  have lps: "length ps = nodes g" and lpt: "length pt = nodes g"
    using fifo_push_phase_length ps pt by blast+
  have e: "not_negative (ps ! s)" "not_negative (ps ! t)" "not_negative (pt ! s)"
    "not_negative (pt ! t)"
    using nps npt lps lpt s t by (simp_all add: list_all_length)
  have "x = NaN"
  proof (cases "spec_degree g s = 0")
    case True
    have a: "n_div (ps ! s) (of_count 0) = NaN \<or> n_div (ps ! s) (of_count 0) = PInf"
      and c: "n_div (ps ! t) (of_count 0) = NaN \<or> n_div (ps ! t) (of_count 0) = PInf"
      using div_zero_cases e by (simp_all add: of_count_def)
    have b: "not_negative (n_div (pt ! t) (of_count (spec_degree g t)))"
      using not_negative_div e by blast
    from combine_nan_left [OF a c b] x True show ?thesis
      by (simp add: spec_combine_def)
  next
    case False
    with d have z: "spec_degree g t = 0" by simp
    have b: "n_div (pt ! t) (of_count 0) = NaN \<or> n_div (pt ! t) (of_count 0) = PInf"
      and d': "n_div (pt ! s) (of_count 0) = NaN \<or> n_div (pt ! s) (of_count 0) = PInf"
      using div_zero_cases e by (simp_all add: of_count_def)
    have a: "not_negative (n_div (ps ! s) (of_count (spec_degree g s)))"
      and c: "not_negative (n_div (ps ! t) (of_count (spec_degree g s)))"
      using not_negative_div e by blast+
    from combine_nan_right [OF b d' a c] x z show ?thesis
      by (simp add: spec_combine_def)
  qed
  with Some show ?thesis by (simp add: pushVSpJS_is_fifo_push [OF wf s t])
qed

lemma abwalk_combine_zero_degree:
  assumes s: "s < nodes g" and t: "t < nodes g"
    and d: "spec_degree g s = 0 \<or> spec_degree g t = 0"
  shows "abwalk_combine (count_degrees (nodes g) (edges g)) s t ntimes a b c e = NaN"
proof -
  let ?deg = "count_degrees (nodes g) (edges g)"
  have ds: "degree_get ?deg s = of_count (spec_degree g s)"
    and dt: "degree_get ?deg t = of_count (spec_degree g t)"
    using degree_get_count_degrees s t by blast+
  have nn: "not_negative (n_div (of_count k) (n_mul (of_count m) (of_count ntimes)))" for k m
    by (simp add: of_count_def)
  have z: "n_div (of_count k) (n_mul (of_count 0) (of_count ntimes)) = NaN
      \<or> n_div (of_count k) (n_mul (of_count 0) (of_count ntimes)) = PInf" for k
    by (simp add: of_count_def)
  show ?thesis
  proof (cases "spec_degree g s = 0")
    case True
    from walk_combine_nan_left [OF z z nn] True
    show ?thesis by (simp add: abwalk_combine_def ds dt)
  next
    case False
    with d have "spec_degree g t = 0" by simp
    with walk_combine_nan_right [OF z z nn nn]
    show ?thesis by (simp add: abwalk_combine_def ds dt)
  qed
qed

lemma abwalkVSpJS_zero_degree:
  assumes s: "s < nodes g" and t: "t < nodes g"
    and d: "spec_degree g s = 0 \<or> spec_degree g t = 0"
  shows "abwalkVSpJS rnd g s t v ntimes = None
     \<or> abwalkVSpJS rnd g s t v ntimes = Some (Inr NaN)
     \<or> abwalkVSpJS rnd g s t v ntimes = Some (Inl TypeError)"
proof (cases "abwalkVSpJS rnd g s t v ntimes")
  case None
  then show ?thesis by simp
next
  case (Some out)
  show ?thesis
  proof (cases out)
    case (Inl e)
    with Some show ?thesis by (cases e) simp
  next
    case (Inr x)
    with Some have "x = NaN"
      by (auto simp: abwalkVSpJS_def abwalkVSpJS_run_def Let_def
          abwalk_combine_zero_degree [OF s t d]
          split: sum.splits option.splits prod.splits)
    with Some Inr show ?thesis by simp
  qed
qed

text \<open>
  Claim C2, as the code has it. Neither estimator checks the degrees, and there is no
  domain error. On a graph whose arcs join its own nodes, for nodes \<open>s\<close> and \<open>t\<close> of which
  one has degree 0, \<open>pushVSpJS\<close> returns not-a-number whenever it returns, and
  \<open>abwalkVSpJS\<close>, whenever it ends, has returned not-a-number or has thrown the
  \<open>TypeError\<close> of the runtime, raised where a walk leaves the isolated node.
\<close>

theorem zero_degree_estimates:
  assumes "well_formed g" and "s < nodes g" and "t < nodes g"
    and "spec_degree g s = 0 \<or> spec_degree g t = 0"
  shows "(pushVSpJS g s t v rmax = None \<or> pushVSpJS g s t v rmax = Some (Inr NaN))
     \<and> (abwalkVSpJS rnd g s t v ntimes = None
        \<or> abwalkVSpJS rnd g s t v ntimes = Some (Inr NaN)
        \<or> abwalkVSpJS rnd g s t v ntimes = Some (Inl TypeError))"
  using pushVSpJS_zero_degree [OF assms] abwalkVSpJS_zero_degree [OF assms(2,3,4)]
  by blast

theorem zero_degree_estimates_witness:
  "well_formed isolated_node_graph \<and> (0::nat) < nodes isolated_node_graph
   \<and> (2::nat) < nodes isolated_node_graph
   \<and> (spec_degree isolated_node_graph 0 = 0 \<or> spec_degree isolated_node_graph 2 = 0)
   \<and> pushVSpJS isolated_node_graph 0 2 1 (Fin (1 / 2)) \<noteq> None
   \<and> pushVSpJS isolated_node_graph 0 2 1 (Fin (1 / 2)) = Some (Inr NaN)"
proof -
  have w: "well_formed isolated_node_graph" by (rule well_formed_isolated_node_graph)
  have s: "(0::nat) < nodes isolated_node_graph" by (simp add: isolated_node_graph_def)
  have t: "(2::nat) < nodes isolated_node_graph" by (simp add: isolated_node_graph_def)
  have "spec_degree isolated_node_graph 2 = 0" by code_simp
  then have d: "spec_degree isolated_node_graph 0 = 0 \<or> spec_degree isolated_node_graph 2 = 0"
    by simp
  have n: "pushVSpJS isolated_node_graph 0 2 1 (Fin (1 / 2)) \<noteq> None" by code_simp
  from zero_degree_estimates [OF w s t d, of 1 "Fin (1 / 2)" zero_draws 1] n
  have "pushVSpJS isolated_node_graph 0 2 1 (Fin (1 / 2)) = Some (Inr NaN)" by blast
  with w s t d n show ?thesis by blast
qed

text \<open>
  The claim as stated fails: with the isolated node 2 as \<open>s\<close> the push estimator returns
  not-a-number and raises nothing, and so does the walk estimator when \<open>s\<close>, \<open>t\<close> and the
  landmark are all the isolated node.
\<close>

theorem zero_degree_counterexample:
  "spec_degree isolated_node_graph 2 = 0
   \<and> pushVSpJS isolated_node_graph 2 0 1 (Fin (1 / 10)) = Some (Inr NaN)
   \<and> abwalkVSpJS zero_draws isolated_node_graph 2 2 2 1 = Some (Inr NaN)"
  by code_simp

section \<open>Adjacency and degree vectors in C++\<close>

lemma build_vectors_general:
  assumes "list_all (\<lambda>e. source e < n) es"
  shows "k \<le> length es \<Longrightarrow> length adj = n \<Longrightarrow> length deg = n \<Longrightarrow>
     \<exists>adj' deg'. for_each (build_edge (map source es) (map target es)) (adj, deg) [k..<length es]
           = Inr (adj', deg')
       \<and> length adj' = n \<and> length deg' = n
       \<and> (\<forall>u < n. adj' ! u = adj ! u @ map target (filter (\<lambda>e. source e = u) (drop k es))
                  \<and> deg' ! u = deg ! u + length (filter (\<lambda>e. source e = u) (drop k es)))"
proof (induction "length es - k" arbitrary: k adj deg)
  case 0
  then show ?case by simp
next
  case (Suc d)
  from Suc.hyps(2) Suc.prems have k: "k < length es" by simp
  let ?e = "es ! k"
  have se: "source ?e < n" using assms k by (simp add: list_all_length)
  let ?adj = "adj[source ?e := adj ! source ?e @ [target ?e]]"
  let ?deg = "deg[source ?e := deg ! source ?e + 1]"
  have step: "build_edge (map source es) (map target es) (adj, deg) k = Inr (?adj, ?deg)"
    using k se Suc.prems by (simp add: build_edge_def Let_def)
  have d: "d = length es - Suc k" using Suc.hyps(2) by simp
  from Suc.hyps(1) [OF d, of ?adj ?deg] k Suc.prems
  obtain adj' deg' where
    r: "for_each (build_edge (map source es) (map target es)) (?adj, ?deg) [Suc k..<length es]
           = Inr (adj', deg')"
    and l: "length adj' = n" "length deg' = n"
    and c: "\<forall>u < n. adj' ! u = ?adj ! u @ map target (filter (\<lambda>e. source e = u) (drop (Suc k) es))
                  \<and> deg' ! u = ?deg ! u + length (filter (\<lambda>e. source e = u) (drop (Suc k) es))"
    by auto
  have dr: "drop k es = ?e # drop (Suc k) es"
    using k by (simp add: Cons_nth_drop_Suc)
  have up: "[k..<length es] = k # [Suc k..<length es]"
    using k by (simp add: upt_conv_Cons)
  have "adj' ! u = adj ! u @ map target (filter (\<lambda>e. source e = u) (drop k es))
      \<and> deg' ! u = deg ! u + length (filter (\<lambda>e. source e = u) (drop k es))"
    if "u < n" for u
    using c that Suc.prems(2,3) unfolding dr by (auto simp: nth_list_update)
  with r l step show ?case unfolding up by simp
qed

lemma build_vectors_spec:
  assumes "well_formed g"
  shows "\<exists>adj degree.
     build_vectors (nodes g) (length (edges g)) (map source (edges g)) (map target (edges g))
       = Inr (adj, degree)
     \<and> length adj = nodes g \<and> length degree = nodes g
     \<and> (\<forall>u < nodes g. adj ! u = spec_neighbors g u \<and> degree ! u = spec_degree g u)"
proof -
  have "list_all (\<lambda>e. source e < nodes g) (edges g)"
    using assms by (simp add: well_formed_def list_all_iff)
  from build_vectors_general [OF this, of 0 "replicate (nodes g) []" "replicate (nodes g) 0"]
  show ?thesis
    by (auto simp: build_vectors_def spec_neighbors_def spec_degree_def)
qed

section \<open>Walks that never reach the landmark\<close>

lemmas walk_induct = walk.raw_induct [rotated 1, consumes 1, case_names step]

lemmas cpp_walk_induct = cpp_walk.raw_induct [rotated 1, consumes 1, case_names step]

lemma draw_index:
  assumes "0 \<le> x" "x < 1" "0 < n"
  shows "nat \<lfloor>x * real n\<rfloor> < n"
proof -
  have "x * real n < real n" using assms by simp
  then have "\<lfloor>x * real n\<rfloor> < int n" by (simp add: floor_less_iff)
  then show ?thesis using assms(3) by linarith
qed

lemma closed_nodes_rows:
  assumes "well_formed g" "closed_nodes g S" "x \<in> S"
  shows "x < nodes g \<and> spec_neighbors g x \<noteq> [] \<and> set (spec_neighbors g x) \<subseteq> S"
proof -
  from assms(2,3) have d: "spec_degree g x \<noteq> 0" by (simp add: closed_nodes_def)
  then have "spec_neighbors g x \<noteq> []" by (simp add: spec_degree_def)
  moreover have "x < nodes g" using positive_degree_in_range [OF assms(1) d] .
  moreover have "set (spec_neighbors g x) \<subseteq> S"
    using assms(2,3) by (auto simp: closed_nodes_def spec_neighbors_def)
  ultimately show ?thesis by simp
qed

lemma walk_trapped:
  assumes "walk adj rnd s t v u k a b = Some res"
  shows "u = Some w \<Longrightarrow> w \<in> S \<Longrightarrow> v \<notin> S \<Longrightarrow>
     \<forall>x \<in> S. x < length adj \<and> adj ! x \<noteq> [] \<and> set (adj ! x) \<subseteq> S \<Longrightarrow>
     \<forall>k. 0 \<le> rnd k \<and> rnd k < 1 \<Longrightarrow> False"
  using assms
proof (induction adj rnd s t v u k a b res arbitrary: w rule: walk_induct)
  case (step loop adj rnd s t v u k a b res)
  from step.prems(1,2,3) have nv: "u \<noteq> Some v" by auto
  from step.prems(2,4) have row: "w < length adj" "adj ! w \<noteq> []" "set (adj ! w) \<subseteq> S"
    by auto
  let ?idx = "nat \<lfloor>rnd k * real (length (adj ! w))\<rfloor>"
  have idx: "?idx < length (adj ! w)"
    using draw_index step.prems(5) row(2) by simp
  have next_in: "adj ! w ! ?idx \<in> S"
    using row(3) idx by (meson nth_mem subsetD)
  have rn: "randNeighbor adj (rnd k) u = Inr (Some (adj ! w ! ?idx))"
    using step.prems(1) row(1) idx by (simp add: randNeighbor_def Let_def)
  from step.hyps nv rn have "loop adj rnd s t v (Some (adj ! w ! ?idx)) (k + 1)
      (if u = Some s then a + 1 else a) (if u = Some t then b + 1 else b) = Some res"
    by simp
  from step.IH [OF this refl next_in step.prems(3,4,5)] show ?case .
qed

lemma cpp_walk_trapped:
  assumes "cpp_walk rand adj s t v u g a b = Some res"
  shows "u \<in> S \<Longrightarrow> v \<notin> S \<Longrightarrow>
     \<forall>x \<in> S. x < length adj \<and> adj ! x \<noteq> [] \<and> set (adj ! x) \<subseteq> S \<Longrightarrow> False"
  using assms
proof (induction rand adj s t v u g a b res rule: cpp_walk_induct)
  case (step loop rand adj s t v u g a b res)
  from step.prems(1,2) have nv: "u \<noteq> v" by auto
  from step.prems(1,3) have row: "u < length adj" "adj ! u \<noteq> []" "set (adj ! u) \<subseteq> S"
    by auto
  let ?idx = "fst (rand g) mod length (adj ! u)"
  have idx: "?idx < length (adj ! u)" using row(2) by simp
  have next_in: "adj ! u ! ?idx \<in> S"
    using row(3) idx by (meson nth_mem subsetD)
  from step.hyps nv row(1,2) have "loop rand adj s t v (adj ! u ! ?idx) (snd (rand g))
      (if u = s then a + 1 else a) (if u = t then b + 1 else b) = Some res"
    by simp
  from step.IH [OF this next_in step.prems(2,3)] show ?case .
qed

lemma abwalkVSpJS_trapped:
  assumes wf: "well_formed g" and cl: "closed_nodes g S" and s: "s \<in> S" and v: "v \<notin> S"
    and n: "0 < ntimes" and rnd: "\<forall>k. 0 \<le> rnd k \<and> rnd k < 1"
  shows "abwalkVSpJS rnd g s t v ntimes = None"
proof -
  from js_context_built [OF wf] obtain adj where
    b: "build_adjacency (replicate (nodes g) []) (edges g) = Inr adj"
    and ctx: "js_context g adj (count_degrees (nodes g) (edges g))"
    by blast
  have rows: "\<forall>x \<in> S. x < length adj \<and> adj ! x \<noteq> [] \<and> set (adj ! x) \<subseteq> S"
    using closed_nodes_rows [OF wf cl] ctx by (simp add: js_context_def)
  have w: "walk adj rnd s t v (Some s) 0 0 0 = None"
  proof (cases "walk adj rnd s t v (Some s) 0 0 0")
    case (Some res)
    from walk_trapped [OF Some refl s v rows rnd] show ?thesis ..
  qed simp
  have "walks_from adj rnd s t v s ntimes 0 0
      \<lparr>draws = 0, hits_of_s = 0, hits_of_t = 0, reported = []\<rparr> = None"
    using n w by (subst walks_from.simps) simp
  with b show ?thesis
    by (simp add: abwalkVSpJS_def abwalkVSpJS_run_def)
qed

lemma abwalkVSp_trapped:
  assumes wf: "well_formed g" and cl: "closed_nodes g S" and s: "s \<in> S" and v: "v \<notin> S"
    and n: "0 < ntimes"
  shows "abwalkVSp srand rand ambient (nodes g) (length (edges g))
           (map source (edges g)) (map target (edges g)) s t v ntimes seed = None"
proof -
  from build_vectors_spec [OF wf] obtain adj degree where
    b: "build_vectors (nodes g) (length (edges g)) (map source (edges g)) (map target (edges g))
       = Inr (adj, degree)"
    and l: "length adj = nodes g"
    and c: "\<forall>u < nodes g. adj ! u = spec_neighbors g u \<and> degree ! u = spec_degree g u"
    by blast
  have rows: "\<forall>x \<in> S. x < length adj \<and> adj ! x \<noteq> [] \<and> set (adj ! x) \<subseteq> S"
    using closed_nodes_rows [OF wf cl] l c by simp
  have w: "cpp_walk rand adj s t v s (srand seed ambient) 0 0 = None"
  proof (cases "cpp_walk rand adj s t v s (srand seed ambient) 0 0")
    case (Some res)
    from cpp_walk_trapped [OF Some s v rows] show ?thesis ..
  qed simp
  have "cpp_walks_from rand adj s t v s ntimes 0 (srand seed ambient, 0, 0) = None"
    using n w by (subst cpp_walks_from.simps) simp
  with b show ?thesis
    by (simp add: abwalkVSp_def)
qed

text \<open>
  Claim C1, as the code has it. The random-walk estimator imposes no cap on the steps of a
  walk: a walk ends only when it reaches the landmark. On a graph whose arcs join its own
  nodes, when \<open>s\<close> lies in a set of nodes that no walk can leave and that does not hold
  the landmark, and at least one walk is asked for, neither \<open>abwalkVSpJS\<close> nor \<open>abwalkVSp\<close>
  ever returns, whatever the random draws are; no sentinel value is reported.
\<close>

theorem walk_estimator_has_no_step_cap:
  assumes "well_formed g" and "closed_nodes g S" and "s \<in> S" and "v \<notin> S" and "0 < ntimes"
    and "\<forall>k. 0 \<le> rnd k \<and> rnd k < 1"
  shows "abwalkVSpJS rnd g s t v ntimes = None
     \<and> abwalkVSp srand rand ambient (nodes g) (length (edges g))
           (map source (edges g)) (map target (edges g)) s t v ntimes seed = None"
proof (rule conjI)
  show "abwalkVSpJS rnd g s t v ntimes = None"
    by (rule abwalkVSpJS_trapped [OF assms])
  show "abwalkVSp srand rand ambient (nodes g) (length (edges g))
           (map source (edges g)) (map target (edges g)) s t v ntimes seed = None"
    by (rule abwalkVSp_trapped [OF assms(1,2,3,4,5)])
qed

theorem walk_estimator_has_no_step_cap_witness:
  "well_formed isolated_node_graph \<and> closed_nodes isolated_node_graph {0, 1}
   \<and> (0::nat) \<in> {0, 1} \<and> (2::nat) \<notin> {0, 1} \<and> (0::nat) < 5
   \<and> (\<forall>k. 0 \<le> zero_draws k \<and> zero_draws k < 1)
   \<and> abwalkVSpJS zero_draws isolated_node_graph 0 1 2 5 = None
   \<and> abwalkVSp counting_srand counting_rand 0
         (nodes isolated_node_graph) (length (edges isolated_node_graph))
         (map source (edges isolated_node_graph)) (map target (edges isolated_node_graph))
         0 1 2 5 7 = None"
proof -
  have w: "well_formed isolated_node_graph" by (rule well_formed_isolated_node_graph)
  have c: "closed_nodes isolated_node_graph {0, 1}"
    by (simp add: closed_nodes_def spec_degree_def spec_neighbors_def isolated_node_graph_def)
  have s: "(0::nat) \<in> {0, 1}" and v: "(2::nat) \<notin> {0, 1}" and n: "(0::nat) < 5"
    by simp_all
  have r: "\<forall>k. 0 \<le> zero_draws k \<and> zero_draws k < 1"
    by (simp add: zero_draws_def)
  note t = walk_estimator_has_no_step_cap [OF w c s v n r, of 1 counting_srand counting_rand 0 7]
  from w c s v n r t show ?thesis by blast
qed

text \<open>
  The claim as stated fails: with the self-loop at node 0 as the only arc and the landmark
  1, which no walk from node 0 reaches, the estimator runs for ever and returns nothing.
\<close>

theorem walk_estimator_step_cap_counterexample:
  "abwalkVSpJS zero_draws \<lparr>nodes = 2, edges = [\<lparr>source = 0, target = 0\<rparr>]\<rparr> 0 0 1 1 = None"
proof -
  let ?g = "\<lparr>nodes = 2, edges = [\<lparr>source = 0, target = 0\<rparr>]\<rparr>"
  have w: "well_formed ?g" by (simp add: well_formed_def)
  have c: "closed_nodes ?g {0}"
    by (simp add: closed_nodes_def spec_degree_def spec_neighbors_def)
  have r: "\<forall>k. 0 \<le> zero_draws k \<and> zero_draws k < 1"
    by (simp add: zero_draws_def)
  from abwalkVSpJS_trapped [OF w c _ _ _ r, of 0 1 1 0] show ?thesis by simp
qed

section \<open>Seeding of the walk estimator and progress of the worker\<close>

text \<open>
  Claim C3, as the code has it. The C++ estimator is seeded explicitly on every call: its
  first statement is \<open>srand(seed)\<close>. Since the state that \<open>srand(seed)\<close> leaves depends on
  the seed only, the result of \<open>abwalkVSp\<close> is the same whatever state the generator was
  in before the call: it is determined by the arguments and the seed. The JavaScript
  estimator has no seed parameter; it draws from \<open>Math.random()\<close>.
\<close>

theorem abwalkVSp_determined_by_seed:
  assumes "srand seed ambient = srand seed ambient'"
  shows "abwalkVSp srand rand ambient n m edgeSources edgeTargets s t v ntimes seed
     = abwalkVSp srand rand ambient' n m edgeSources edgeTargets s t v ntimes seed"
  using assms by (simp add: abwalkVSp_def)

theorem abwalkVSp_determined_by_seed_witness:
  "counting_srand 3 0 = counting_srand 3 99
   \<and> abwalkVSp counting_srand counting_rand 0 3 4 [0, 1, 0, 2] [1, 0, 2, 0] 0 1 2 1 3
       = abwalkVSp counting_srand counting_rand 99 3 4 [0, 1, 0, 2] [1, 0, 2, 0] 0 1 2 1 3
   \<and> abwalkVSp counting_srand counting_rand 99 3 4 [0, 1, 0, 2] [1, 0, 2, 0] 0 1 2 1 3
       = Some (Inr (Fin 1))"
proof -
  have h: "counting_srand 3 0 = counting_srand 3 99"
    by (simp add: counting_srand_def)
  have e: "abwalkVSp counting_srand counting_rand 0 3 4 [0, 1, 0, 2] [1, 0, 2, 0] 0 1 2 1 3
       = abwalkVSp counting_srand counting_rand 99 3 4 [0, 1, 0, 2] [1, 0, 2, 0] 0 1 2 1 3"
    by (rule abwalkVSp_determined_by_seed [of counting_srand 3 0 99, OF h])
  have r: "abwalkVSp counting_srand counting_rand 99 3 4 [0, 1, 0, 2] [1, 0, 2, 0] 0 1 2 1 3
       = Some (Inr (Fin 1))"
    by code_simp
  from h e r show ?thesis by blast
qed

text \<open>
  The claim as stated fails for \<open>abwalkVSpJS\<close>: two invocations with the same graph and
  the same \<open>s\<close>, \<open>t\<close>, \<open>v\<close> and \<open>times\<close> return different estimates when \<open>Math.random()\<close>
  draws differently, and no argument lets the caller fix the draws.
\<close>

theorem abwalkVSpJS_seed_counterexample:
  "abwalkVSpJS late_draws fork_graph 0 1 2 1 = Some (Inr (Fin (1 / 2)))
   \<and> abwalkVSpJS half_draws fork_graph 0 1 2 1 = Some (Inr (Fin 1))"
  by code_simp

text \<open>
  Claim C7 fails on the fallback path of the worker. For the algorithm
  \<open>abwalk-v-sp-wasm\<close> on the graph with the isolated node 2 as \<open>t\<close>, the worker posts the
  progress value 50, the module then stops at the remainder by zero in the first walk from
  \<open>t\<close>, and the fallback to \<open>abwalkVSpJS\<close> posts 25 and 50 before it throws: the progress
  values 50, 25, 50 are not non-decreasing.
\<close>

theorem progress_regresses_after_fallback:
  "handleCompute sample_environment
     \<lparr>algorithm = abwalk_v_sp_wasm, graph_of = isolated_node_graph,
      params = AbwalkVSpParams 0 2 1 2, taskId = ''task''\<rparr>
     = Some [PROGRESS ''task'' (Fin 50), PROGRESS ''task'' (Fin 25), PROGRESS ''task'' (Fin 50),
             ERROR ''task'' ''TypeError'']
   \<and> \<not> non_decreasing (progress_values
          [PROGRESS ''task'' (Fin 50), PROGRESS ''task'' (Fin 25), PROGRESS ''task'' (Fin 50),
           ERROR ''task'' ''TypeError''])"
  by code_simp

section \<open>The C++ push estimator and the JavaScript one\<close>

lemmas cpp_push_loop_induct = cpp_push_loop.raw_induct [rotated 1, consumes 1, case_names step]

lemma cpp_context_nth:
  "cpp_context g adj degree \<Longrightarrow> u < nodes g \<Longrightarrow>
   adj ! u = spec_neighbors g u \<and> degree ! u = spec_degree g u"
  by (simp add: cpp_context_def list_all_iff)

lemma cpp_rel_flag:
  "cpp_rel n st r settled q \<Longrightarrow> i < n \<Longrightarrow> sq_inQueue (c_queue st) ! i = (i \<in> set q)"
  by (simp add: cpp_rel_def list_all_iff)

lemma cpp_push_neighbor_fifo:
  assumes ctx: "cpp_context g adj degree" and rel: "cpp_rel (nodes g) st r settled q"
    and w: "w < nodes g" and u: "u < nodes g"
  shows "\<exists>st'. cpp_push_neighbor degree v rmax u st w = Inr st'
     \<and> cpp_rel (nodes g) st'
          (fst (fifo_push_to g v rmax u (r, q) w)) settled (snd (fifo_push_to g v rmax u (r, q) w))"
proof (cases "w = v")
  case True
  with rel show ?thesis by (simp add: cpp_push_neighbor_def fifo_push_to_def)
next
  case False
  let ?n = "nodes g"
  from rel have l: "length (c_r st) = ?n" "c_r st = r" "length r = ?n"
    by (simp_all add: cpp_rel_def)
  from ctx have ld: "length degree = ?n" by (simp add: cpp_context_def)
  have du: "degree ! u = spec_degree g u" and dw: "degree ! w = spec_degree g w"
    using cpp_context_nth [OF ctx] u w by simp_all
  let ?r' = "r[w := n_add (r ! w) (n_div (r ! u) (of_count (spec_degree g u)))]"
  let ?st1 = "st\<lparr>c_r := ?r'\<rparr>"
  let ?gt = "n_gt (?r' ! w) (n_mul (of_count (spec_degree g w)) rmax)"
  have rel1: "cpp_rel ?n ?st1 ?r' settled q"
    using rel by (simp add: cpp_rel_def)
  show ?thesis
  proof (cases ?gt)
    case gt: False
    have "cpp_push_neighbor degree v rmax u st w = Inr ?st1"
      using False l ld du dw w u gt by (simp add: cpp_push_neighbor_def Let_def)
    moreover have "fifo_push_to g v rmax u (r, q) w = (?r', q)"
      using False gt by (simp add: fifo_push_to_def Let_def)
    ultimately show ?thesis using rel1 by simp
  next
    case gt: True
    have flag: "sq_inQueue (c_queue st) ! w = (w \<in> set q)"
      using cpp_rel_flag [OF rel w] .
    have li: "length (sq_inQueue (c_queue st)) = ?n"
      using rel by (simp add: cpp_rel_def)
    show ?thesis
    proof (cases "w \<in> set q")
      case inq: True
      have "sq_push (c_queue ?st1) w = Inr (c_queue st)"
        using flag inq li w by (simp add: sq_push_def)
      then have "cpp_push_neighbor degree v rmax u st w = Inr ?st1"
        using False l ld du dw w u gt by (simp add: cpp_push_neighbor_def Let_def)
      moreover have "fifo_push_to g v rmax u (r, q) w = (?r', q)"
        using False inq by (simp add: fifo_push_to_def Let_def)
      ultimately show ?thesis using rel1 by simp
    next
      case inq: False
      let ?q' = "(c_queue st)\<lparr>sq_data := sq_data (c_queue st) @ [w],
          sq_inQueue := (sq_inQueue (c_queue st))[w := True]\<rparr>"
      have "sq_push (c_queue ?st1) w = Inr ?q'"
        using flag inq li w by (simp add: sq_push_def)
      then have a: "cpp_push_neighbor degree v rmax u st w = Inr (?st1\<lparr>c_queue := ?q'\<rparr>)"
        using False l ld du dw w u gt by (simp add: cpp_push_neighbor_def Let_def)
      have b: "fifo_push_to g v rmax u (r, q) w = (?r', q @ [w])"
        using False inq gt by (simp add: fifo_push_to_def Let_def)
      have "cpp_rel ?n (?st1\<lparr>c_queue := ?q'\<rparr>) ?r' settled (q @ [w])"
        using rel w inq
        by (auto simp: cpp_rel_def list_all_iff nth_list_update)
      with a b show ?thesis by simp
    qed
  qed
qed

lemma cpp_push_neighbors_fifo:
  assumes ctx: "cpp_context g adj degree" and u: "u < nodes g"
  shows "list_all (\<lambda>w. w < nodes g) ws \<Longrightarrow> cpp_rel (nodes g) st r settled q \<Longrightarrow>
     \<exists>st'. for_each (cpp_push_neighbor degree v rmax u) st ws = Inr st'
       \<and> cpp_rel (nodes g) st'
            (fst (foldl (fifo_push_to g v rmax u) (r, q) ws)) settled
            (snd (foldl (fifo_push_to g v rmax u) (r, q) ws))"
proof (induction ws arbitrary: st r q)
  case Nil
  then show ?case by simp
next
  case (Cons w ws)
  from Cons.prems have w: "w < nodes g" and ws: "list_all (\<lambda>w. w < nodes g) ws" by simp_all
  from cpp_push_neighbor_fifo [OF ctx Cons.prems(2) w u, of v rmax]
  obtain st1 where s1: "cpp_push_neighbor degree v rmax u st w = Inr st1"
    and r1: "cpp_rel (nodes g) st1
          (fst (fifo_push_to g v rmax u (r, q) w)) settled (snd (fifo_push_to g v rmax u (r, q) w))"
    by blast
  from Cons.IH [OF ws r1] s1 show ?case by simp
qed

lemma cpp_push_iteration_fifo:
  assumes ctx: "cpp_context g adj degree"
    and rel: "cpp_rel (nodes g) st r settled (u # rest)"
  shows "\<exists>st'. cpp_push_iteration adj degree v rmax st = Inr st'
     \<and> cpp_rel (nodes g) st'
         ((fst (foldl (fifo_push_to g v rmax u) (r, rest) (spec_neighbors g u)))[u := Fin 0])
         (settled[u := n_add (settled ! u) (r ! u)])
         (snd (foldl (fifo_push_to g v rmax u) (r, rest) (spec_neighbors g u)))"
proof -
  let ?n = "nodes g"
  let ?q = "c_queue st"
  from rel have u: "u < ?n" and d: "u \<notin> set rest"
    and dr: "drop (sq_front ?q) (sq_data ?q) = u # rest"
    and li: "length (sq_inQueue ?q) = ?n"
    and lr: "c_r st = r" "c_p st = settled" "length r = ?n" "length settled = ?n"
    by (simp_all add: cpp_rel_def)
  from dr have fr: "sq_front ?q < length (sq_data ?q)"
    by (metis drop_all list.distinct(1) not_le)
  have hd: "sq_data ?q ! sq_front ?q = u" and tl: "drop (Suc (sq_front ?q)) (sq_data ?q) = rest"
    using dr fr by (simp_all add: Cons_nth_drop_Suc [symmetric])
  let ?q1 = "?q\<lparr>sq_front := sq_front ?q + 1, sq_inQueue := (sq_inQueue ?q)[u := False]\<rparr>"
  have pop: "sq_pop ?q = Inr (u, ?q1)"
    using fr hd u li by (simp add: sq_pop_def Let_def)
  let ?st1 = "st\<lparr>c_queue := ?q1, c_p := settled[u := n_add (settled ! u) (r ! u)]\<rparr>"
  have rel1: "cpp_rel ?n ?st1 r (settled[u := n_add (settled ! u) (r ! u)]) rest"
    using rel tl fr d u
    by (auto simp: cpp_rel_def list_all_iff nth_list_update)
  have ws: "list_all (\<lambda>w. w < ?n) (spec_neighbors g u)"
    using ctx spec_neighbors_in_range by (auto simp: cpp_context_def list_all_iff)
  from cpp_push_neighbors_fifo [OF ctx u ws rel1, of v rmax]
  obtain st2 where f: "for_each (cpp_push_neighbor degree v rmax u) ?st1 (spec_neighbors g u) = Inr st2"
    and rel2: "cpp_rel ?n st2
         (fst (foldl (fifo_push_to g v rmax u) (r, rest) (spec_neighbors g u)))
         (settled[u := n_add (settled ! u) (r ! u)])
         (snd (foldl (fifo_push_to g v rmax u) (r, rest) (spec_neighbors g u)))"
    by blast
  have adj: "adj ! u = spec_neighbors g u" "u < length adj"
    using cpp_context_nth [OF ctx u] ctx u by (simp_all add: cpp_context_def)
  have it: "cpp_push_iteration adj degree v rmax st = Inr (st2\<lparr>c_r := (c_r st2)[u := Fin 0]\<rparr>)"
    using pop f adj u lr by (simp add: cpp_push_iteration_def Let_def)
  have "cpp_rel ?n (st2\<lparr>c_r := (c_r st2)[u := Fin 0]\<rparr>)
         ((fst (foldl (fifo_push_to g v rmax u) (r, rest) (spec_neighbors g u)))[u := Fin 0])
         (settled[u := n_add (settled ! u) (r ! u)])
         (snd (foldl (fifo_push_to g v rmax u) (r, rest) (spec_neighbors g u)))"
    using rel2 by (simp add: cpp_rel_def)
  with it show ?thesis by blast
qed

lemma cpp_rel_empty: "cpp_rel n st r settled q \<Longrightarrow> sq_empty (c_queue st) = (q = [])"
  by (auto simp: cpp_rel_def sq_empty_def)

lemma cpp_loop_to_fifo:
  assumes "cpp_push_loop adj degree v rmax st = Some res"
  shows "cpp_context g adj degree \<Longrightarrow> cpp_rel (nodes g) st r settled q \<Longrightarrow>
     \<exists>st'. res = Inr st' \<and> fifo_push_loop g v rmax r settled q = Some (c_p st')
       \<and> length (sq_inQueue (c_queue st')) = nodes g"
  using assms
proof (induction adj degree v rmax st res arbitrary: r settled q rule: cpp_push_loop_induct)
  case (step loop adj degree v rmax st res)
  show ?case
  proof (cases q)
    case Nil
    with step.prems(2) have e: "sq_empty (c_queue st)" and p: "c_p st = settled"
      and l: "length (sq_inQueue (c_queue st)) = nodes g"
      using cpp_rel_empty by (auto simp: cpp_rel_def)
    with step.hyps Nil show ?thesis
      by (auto simp: fifo_push_loop.simps [of _ _ _ _ _ "[]"])
  next
    case (Cons u rest)
    with step.prems(2) have ne: "\<not> sq_empty (c_queue st)"
      using cpp_rel_empty by blast
    from cpp_push_iteration_fifo [OF step.prems(1), of st r settled u rest v rmax] step.prems(2) Cons
    obtain st1 where it: "cpp_push_iteration adj degree v rmax st = Inr st1"
      and rel1: "cpp_rel (nodes g) st1
         ((fst (foldl (fifo_push_to g v rmax u) (r, rest) (spec_neighbors g u)))[u := Fin 0])
         (settled[u := n_add (settled ! u) (r ! u)])
         (snd (foldl (fifo_push_to g v rmax u) (r, rest) (spec_neighbors g u)))"
      by blast
    from step.hyps ne it have "loop adj degree v rmax st1 = Some res" by simp
    from step.IH [OF this step.prems(1) rel1] show ?thesis
      using Cons by (simp add: fifo_push_loop.simps [of g v rmax r settled "u # rest"])
  qed
qed

lemma fifo_loop_to_cpp:
  assumes "fifo_push_loop g v rmax r settled q = Some ps"
  shows "cpp_context g adj degree \<Longrightarrow> cpp_rel (nodes g) st r settled q \<Longrightarrow>
     \<exists>st'. cpp_push_loop adj degree v rmax st = Some (Inr st') \<and> c_p st' = ps"
  using assms
proof (induction g v rmax r settled q ps arbitrary: st rule: fifo_push_loop_induct)
  case (step loop g v rmax r settled q ps)
  show ?case
  proof (cases q)
    case Nil
    with step.prems(2) have e: "sq_empty (c_queue st)" and p: "c_p st = settled"
      using cpp_rel_empty by (auto simp: cpp_rel_def)
    with step.hyps Nil show ?thesis
      by (auto simp: cpp_push_loop.simps [of adj degree v rmax st])
  next
    case (Cons u rest)
    with step.prems(2) have ne: "\<not> sq_empty (c_queue st)"
      using cpp_rel_empty by blast
    from cpp_push_iteration_fifo [OF step.prems(1), of st r settled u rest v rmax] step.prems(2) Cons
    obtain st1 where it: "cpp_push_iteration adj degree v rmax st = Inr st1"
      and rel1: "cpp_rel (nodes g) st1
         ((fst (foldl (fifo_push_to g v rmax u) (r, rest) (spec_neighbors g u)))[u := Fin 0])
         (settled[u := n_add (settled ! u) (r ! u)])
         (snd (foldl (fifo_push_to g v rmax u) (r, rest) (spec_neighbors g u)))"
      by blast
    from step.hyps Cons have "loop g v rmax
         ((fst (foldl (fifo_push_to g v rmax u) (r, rest) (spec_neighbors g u)))[u := Fin 0])
         (settled[u := n_add (settled ! u) (r ! u)])
         (snd (foldl (fifo_push_to g v rmax u) (r, rest) (spec_neighbors g u))) = Some ps"
      by simp
    from step.IH [OF this step.prems(1) rel1] show ?thesis
      using ne it by (simp add: cpp_push_loop.simps [of adj degree v rmax st])
  qed
qed

lemma cpp_push_phase_fifo:
  assumes ctx: "cpp_context g adj degree" and seed: "seed < nodes g"
    and q0: "sq_data queue0 = []" "sq_front queue0 = 0"
      "sq_inQueue queue0 = replicate (nodes g) False"
  shows "(case cpp_push_phase adj degree (nodes g) seed v rmax queue0 of
            None \<Rightarrow> fifo_push_phase g seed v rmax = None
          | Some res \<Rightarrow> \<exists>st'. res = Inr st' \<and> fifo_push_phase g seed v rmax = Some (c_p st')
               \<and> length (sq_inQueue (c_queue st')) = nodes g)"
proof -
  let ?n = "nodes g"
  let ?q = "if seed \<noteq> v
      then queue0\<lparr>sq_data := [seed], sq_inQueue := (replicate ?n False)[seed := True]\<rparr>
      else queue0"
  let ?st = "\<lparr>c_r = (replicate ?n (Fin 0))[seed := Fin 1], c_p = replicate ?n (Fin 0),
      c_queue = ?q\<rparr>"
  have push: "(if seed \<noteq> v then sq_push queue0 seed else Inr queue0) = Inr ?q"
    using seed q0 by (simp add: sq_push_def)
  have ph: "cpp_push_phase adj degree ?n seed v rmax queue0 = cpp_push_loop adj degree v rmax ?st"
    using seed push by (simp add: cpp_push_phase_def)
  have rel: "cpp_rel ?n ?st ((replicate ?n (Fin 0))[seed := Fin 1]) (replicate ?n (Fin 0))
      (if seed = v then [] else [seed])"
    using seed q0 by (auto simp: cpp_rel_def list_all_iff nth_list_update)
  show ?thesis
  proof (cases "cpp_push_loop adj degree v rmax ?st")
    case None
    have "fifo_push_phase g seed v rmax = None"
    proof (cases "fifo_push_phase g seed v rmax")
      case (Some ps)
      from fifo_loop_to_cpp [OF Some [unfolded fifo_push_phase_def] ctx rel] None
      show ?thesis by simp
    qed simp
    with None ph show ?thesis by simp
  next
    case (Some res)
    from cpp_loop_to_fifo [OF Some ctx rel] Some ph show ?thesis
      by (simp add: fifo_push_phase_def)
  qed
qed

lemma cpp_context_built:
  assumes "well_formed g"
  shows "\<exists>adj degree.
     build_vectors (nodes g) (length (edges g)) (map source (edges g)) (map target (edges g))
       = Inr (adj, degree) \<and> cpp_context g adj degree"
  using build_vectors_spec [OF assms] assms
  by (auto simp: cpp_context_def list_all_iff)

lemma cpp_push_combine_spec:
  "cpp_context g adj degree \<Longrightarrow> s < nodes g \<Longrightarrow> t < nodes g \<Longrightarrow>
   cpp_push_combine degree s t ps pt = spec_combine g s t ps pt"
  using cpp_context_nth [of g adj degree s] cpp_context_nth [of g adj degree t]
  by (simp add: cpp_push_combine_def spec_combine_def)

lemma pushVSp_is_fifo_push:
  assumes wf: "well_formed g" and s: "s < nodes g" and t: "t < nodes g"
  shows "pushVSp (nodes g) (length (edges g)) (map source (edges g)) (map target (edges g))
           s t v rmax = map_option Inr (fifo_push g s t v rmax)"
proof -
  from cpp_context_built [OF wf] obtain adj degree where
    b: "build_vectors (nodes g) (length (edges g)) (map source (edges g)) (map target (edges g))
       = Inr (adj, degree)"
    and ctx: "cpp_context g adj degree"
    by blast
  note ph1 = cpp_push_phase_fifo [OF ctx s, of "sq_new (nodes g)" v rmax]
  show ?thesis
  proof (cases "cpp_push_phase adj degree (nodes g) s v rmax (sq_new (nodes g))")
    case None
    with ph1 b show ?thesis
      by (simp add: pushVSp_def fifo_push_def sq_new_def)
  next
    case (Some res1)
    with ph1 obtain sts where r1: "res1 = Inr sts"
      and s1: "fifo_push_phase g s v rmax = Some (c_p sts)"
      and l1: "length (sq_inQueue (c_queue sts)) = nodes g"
      by (auto simp: sq_new_def)
    note ph2 = cpp_push_phase_fifo [OF ctx t, of "sq_clear (c_queue sts)" v rmax]
    show ?thesis
    proof (cases "cpp_push_phase adj degree (nodes g) t v rmax (sq_clear (c_queue sts))")
      case None
      with ph2 b Some r1 s1 l1 show ?thesis
        by (simp add: pushVSp_def fifo_push_def sq_clear_def)
    next
      case (Some res2)
      with ph2 l1 obtain stt where r2: "res2 = Inr stt"
        and s2: "fifo_push_phase g t v rmax = Some (c_p stt)"
        by (auto simp: sq_clear_def)
      from b \<open>cpp_push_phase adj degree (nodes g) s v rmax (sq_new (nodes g)) = Some res1\<close>
        r1 Some r2 s1 s2 cpp_push_combine_spec [OF ctx s t]
      show ?thesis
        by (simp add: pushVSp_def fifo_push_def)
    qed
  qed
qed

text \<open>
  Claim C9. On a graph whose arcs join its own nodes and for nodes \<open>s\<close> and \<open>t\<close> of the
  graph, with the node count and the edge list handed over as the worker does, the C++
  \<open>pushVSp\<close> and the JavaScript \<open>pushVSpJS\<close> denote the same function: either neither
  returns, or both return the same number.
\<close>

theorem pushVSp_equals_pushVSpJS:
  assumes "well_formed g" and "s < nodes g" and "t < nodes g"
  shows "(pushVSp (nodes g) (length (edges g)) (map source (edges g)) (map target (edges g))
            s t v rmax = None
          \<and> pushVSpJS g s t v rmax = None)
     \<or> (\<exists>x. pushVSp (nodes g) (length (edges g)) (map source (edges g)) (map target (edges g))
               s t v rmax = Some (Inr x)
             \<and> pushVSpJS g s t v rmax = Some (Inr x))"
  unfolding pushVSp_is_fifo_push [OF assms] pushVSpJS_is_fifo_push [OF assms]
  by (cases "fifo_push g s t v rmax") simp_all

theorem pushVSp_equals_pushVSpJS_witness:
  "well_formed cycle_graph \<and> (0::nat) < nodes cycle_graph \<and> (1::nat) < nodes cycle_graph
   \<and> pushVSpJS cycle_graph 0 1 2 (Fin (1 / 100)) = Some (Inr (Fin (3 / 4)))
   \<and> pushVSp (nodes cycle_graph) (length (edges cycle_graph)) (map source (edges cycle_graph))
        (map target (edges cycle_graph)) 0 1 2 (Fin (1 / 100)) = Some (Inr (Fin (3 / 4)))"
proof -
  have w: "well_formed cycle_graph" by (rule well_formed_cycle_graph)
  have s: "(0::nat) < nodes cycle_graph" and t: "(1::nat) < nodes cycle_graph"
    by (simp_all add: cycle_graph_def)
  have j: "pushVSpJS cycle_graph 0 1 2 (Fin (1 / 100)) = Some (Inr (Fin (3 / 4)))"
    by code_simp
  from pushVSp_equals_pushVSpJS [OF w s t, of 2 "Fin (1 / 100)"] j
  have "pushVSp (nodes cycle_graph) (length (edges cycle_graph)) (map source (edges cycle_graph))
        (map target (edges cycle_graph)) 0 1 2 (Fin (1 / 100)) = Some (Inr (Fin (3 / 4)))"
    by auto
  with w s t j show ?thesis by blast
qed

section \<open>Progress messages without a fallback\<close>

lemma n_le_Fin_mono: "n_le x (Fin b) \<Longrightarrow> b \<le> c \<Longrightarrow> n_le x (Fin c)"
  by (cases x) auto

lemma non_decreasing_append:
  "non_decreasing xs \<Longrightarrow> non_decreasing ys \<Longrightarrow>
   (\<forall>x \<in> set xs. \<forall>y \<in> set ys. n_le x y) \<Longrightarrow> non_decreasing (xs @ ys)"
proof (induction xs rule: non_decreasing.induct)
  case 1
  then show ?case by simp
next
  case (2 x)
  then show ?case by (cases ys) auto
next
  case (3 x y ys')
  then show ?case by auto
qed

lemma non_decreasing_replicate: "non_decreasing (replicate k (Fin c))"
proof (induction k)
  case 0
  then show ?case by simp
next
  case (Suc k)
  then show ?case by (cases k) auto
qed

lemma emitted_push_neighbor: "emitted (push_neighbor degree v rmax u st w) = emitted st"
  by (simp add: push_neighbor_def Let_def)

lemma emitted_push_neighbors: "emitted (foldl (push_neighbor degree v rmax u) st ws) = emitted st"
  by (induction ws arbitrary: st) (simp_all add: emitted_push_neighbor)

text \<open>What a run has reported when it ends, by returning or by throwing.\<close>

lemma push_iteration_emitted:
  "push_iteration adj degree v rmax pct st u rest = Inr st' \<Longrightarrow>
   emitted st' = emitted st \<or> emitted st' = emitted st @ [pct]"
  by (auto simp: push_iteration_def Let_def emitted_push_neighbors split: if_splits)

lemma push_iteration_thrown:
  "push_iteration adj degree v rmax pct st u rest = Inl (e, reps) \<Longrightarrow> reps = emitted st"
  by (auto simp: push_iteration_def Let_def split: if_splits)

lemma push_loop_emitted:
  assumes "push_loop adj degree v rmax pct st = Some res"
  shows "\<exists>k. (case res of Inl (e, reps) \<Rightarrow> reps | Inr st' \<Rightarrow> emitted st')
            = emitted st @ replicate k pct"
  using assms
proof (induction adj degree v rmax pct st res rule: push_loop_induct)
  case (step loop adj degree v rmax pct st res)
  show ?case
  proof (cases "queue st")
    case Nil
    with step.hyps have "res = Inr st" by simp
    then show ?thesis by (auto intro: exI [of _ 0])
  next
    case (Cons u rest)
    show ?thesis
    proof (cases "push_iteration adj degree v rmax pct st u rest")
      case (Inl x)
      obtain e reps where x: "x = (e, reps)" by (cases x)
      with step.hyps Cons Inl have "res = Inl (e, reps)" by simp
      moreover have "reps = emitted st" using push_iteration_thrown Inl x by blast
      ultimately show ?thesis by (auto intro: exI [of _ 0])
    next
      case (Inr st1)
      with step.hyps Cons have "loop adj degree v rmax pct st1 = Some res" by simp
      from step.IH [OF this] obtain k where
        k: "(case res of Inl (e, reps) \<Rightarrow> reps | Inr st' \<Rightarrow> emitted st')
            = emitted st1 @ replicate k pct" by blast
      from push_iteration_emitted [OF Inr] show ?thesis
      proof
        assume "emitted st1 = emitted st"
        with k show ?thesis by auto
      next
        assume "emitted st1 = emitted st @ [pct]"
        with k have "(case res of Inl (e, reps) \<Rightarrow> reps | Inr st' \<Rightarrow> emitted st')
            = emitted st @ replicate (Suc k) pct"
          by (simp add: replicate_app_Cons_same)
        then show ?thesis by blast
      qed
    qed
  qed
qed

lemma push_progress_shape:
  assumes "pushVSpJS_run g s t v rmax = Some (reps, out)"
  shows "\<exists>a b tl. reps = replicate a (Fin 25) @ replicate b (Fin 75) @ tl
     \<and> (tl = [] \<or> tl = [Fin 100])"
proof (cases "build_adjacency (replicate (nodes g) []) (edges g)")
  case (Inl e)
  with assms have "reps = []" by (simp add: pushVSpJS_run_def Let_def)
  then show ?thesis by simp
next
  case (Inr adj)
  let ?deg = "count_degrees (nodes g) (edges g)"
  from assms Inr obtain res1 where
    r1: "push_loop adj ?deg v rmax (Fin 25) (push_start (nodes g) s v []) = Some res1"
    by (auto simp: pushVSpJS_run_def Let_def split: option.splits)
  from push_loop_emitted [OF r1] obtain a where
    a: "(case res1 of Inl (e, reps) \<Rightarrow> reps | Inr st' \<Rightarrow> emitted st') = replicate a (Fin 25)"
    by (auto simp: push_start_def)
  show ?thesis
  proof (cases res1)
    case (Inl x)
    with assms Inr r1 a have "reps = replicate a (Fin 25)"
      by (auto simp: pushVSpJS_run_def Let_def split: prod.splits)
    then show ?thesis
      by (intro exI [of _ a] exI [of _ 0] exI [of _ "[]"]) simp
  next
    case sts: (Inr sts)
    with a have ea: "emitted sts = replicate a (Fin 25)" by simp
    from assms Inr r1 sts obtain res2 where
      r2: "push_loop adj ?deg v rmax (Fin 75) (push_start (nodes g) t v (emitted sts)) = Some res2"
      by (auto simp: pushVSpJS_run_def Let_def split: option.splits)
    from push_loop_emitted [OF r2] ea obtain b where
      b: "(case res2 of Inl (e, reps) \<Rightarrow> reps | Inr st' \<Rightarrow> emitted st')
          = replicate a (Fin 25) @ replicate b (Fin 75)"
      by (auto simp: push_start_def)
    show ?thesis
    proof (cases res2)
      case (Inl x)
      with assms Inr r1 sts r2 b have "reps = replicate a (Fin 25) @ replicate b (Fin 75)"
        by (auto simp: pushVSpJS_run_def Let_def split: prod.splits)
      then show ?thesis
        by (intro exI [of _ a] exI [of _ b] exI [of _ "[]"]) simp
    next
      case stt: (Inr stt)
      with assms Inr r1 sts r2 b
      have "reps = replicate a (Fin 25) @ replicate b (Fin 75) @ [Fin 100]"
        by (auto simp: pushVSpJS_run_def Let_def)
      then show ?thesis
        by (intro exI [of _ a] exI [of _ b] exI [of _ "[Fin 100]"]) simp
    qed
  qed
qed

lemma push_progress_monotone:
  assumes "pushVSpJS_run g s t v rmax = Some (reps, out)"
  shows "non_decreasing reps \<and> list_all in_percent_range reps"
proof -
  from push_progress_shape [OF assms] obtain a b tl where
    r: "reps = replicate a (Fin 25) @ replicate b (Fin 75) @ tl"
    and tl: "tl = [] \<or> tl = [Fin 100]" by blast
  have t: "non_decreasing tl" using tl by auto
  have bt: "non_decreasing (replicate b (Fin 75) @ tl)"
    using tl by (intro non_decreasing_append non_decreasing_replicate t) auto
  have "non_decreasing (replicate a (Fin 25) @ replicate b (Fin 75) @ tl)"
    using tl by (intro non_decreasing_append non_decreasing_replicate bt) auto
  moreover have "list_all in_percent_range reps"
    using r tl by (auto simp: list_all_iff in_percent_range_def)
  ultimately show ?thesis using r by simp
qed

lemma non_decreasing_snoc:
  "non_decreasing xs \<Longrightarrow> list_all (\<lambda>x. n_le x y) xs \<Longrightarrow> non_decreasing (xs @ [y])"
  by (rule non_decreasing_append) (auto simp: list_all_iff)

lemma walks_from_progress:
  assumes "walks_from adj rnd s t v start ntimes base i st = Some res"
    and "i \<le> ntimes" and "0 \<le> base"
    and "non_decreasing (reported st)"
    and "list_all (\<lambda>x. n_le (Fin 0) x \<and> n_le x (Fin (base + real i / real ntimes * 50)))
           (reported st)"
  shows "non_decreasing (case res of Inl (e, reps) \<Rightarrow> reps | Inr st' \<Rightarrow> reported st')
     \<and> list_all (\<lambda>x. n_le (Fin 0) x \<and> n_le x (Fin (base + 50)))
          (case res of Inl (e, reps) \<Rightarrow> reps | Inr st' \<Rightarrow> reported st')"
  using assms
proof (induction adj rnd s t v start ntimes base i st rule: walks_from.induct)
  case (1 adj rnd s t v start ntimes base i st)
  have up: "base + real i / real ntimes * 50 \<le> base + 50"
  proof (cases "ntimes = 0")
    case True
    then show ?thesis by simp
  next
    case False
    then have "real i / real ntimes \<le> 1" using "1.prems"(2) by simp
    then have "real i / real ntimes * 50 \<le> 1 * 50" by (rule mult_right_mono) simp
    then show ?thesis by simp
  qed
  have bound: "list_all (\<lambda>x. n_le (Fin 0) x \<and> n_le x (Fin (base + 50))) (reported st)"
    using "1.prems"(5) up by (auto simp: list_all_iff intro: n_le_Fin_mono)
  show ?case
  proof (cases "i < ntimes")
    case False
    with "1.prems"(1) have "res = Inr st" by (simp add: walks_from.simps)
    with "1.prems"(4) bound show ?thesis by simp
  next
    case True
    note lt = this
    from "1.prems"(1) lt obtain w where
      w: "walk adj rnd s t v (Some start) (draws st) (hits_of_s st) (hits_of_t st) = Some w"
      by (subst (asm) walks_from.simps) (auto split: option.splits)
    show ?thesis
    proof (cases w)
      case (Inl e)
      with "1.prems"(1) lt w have "res = Inl (e, reported st)"
        by (subst (asm) walks_from.simps) simp
      with "1.prems"(4) bound show ?thesis by simp
    next
      case (Inr kab)
      obtain k a b where kab: "kab = (k, a, b)" by (cases kab)
      let ?new = "Fin (base + real (i + 1) / real ntimes * 50)"
      let ?reps = "if (i + 1) mod max 1 (ntimes div 20) = 0
          then reported st @ [?new] else reported st"
      let ?st' = "st\<lparr>draws := k, hits_of_s := a, hits_of_t := b, reported := ?reps\<rparr>"
      from "1.prems"(1) lt w Inr kab
      have run: "walks_from adj rnd s t v start ntimes base (i + 1) ?st' = Some res"
        by (subst (asm) walks_from.simps) simp
      have "real i / real ntimes \<le> real (i + 1) / real ntimes"
        by (intro divide_right_mono) simp_all
      then have "real i / real ntimes * 50 \<le> real (i + 1) / real ntimes * 50"
        by (rule mult_right_mono) simp
      then have step: "base + real i / real ntimes * 50 \<le> base + real (i + 1) / real ntimes * 50"
        by (rule add_left_mono)
      have old: "list_all (\<lambda>x. n_le (Fin 0) x \<and> n_le x ?new) (reported st)"
        using "1.prems"(5) step by (auto simp: list_all_iff intro: n_le_Fin_mono)
      have "0 \<le> real (i + 1) / real ntimes * 50" by simp
      then have "0 \<le> base + real (i + 1) / real ntimes * 50"
        using "1.prems"(3) by (rule add_nonneg_nonneg [rotated])
      then have nn: "n_le (Fin 0) ?new" by (simp only: n_le.simps n_lt.simps not_less)
      have nd: "non_decreasing ?reps"
        using "1.prems"(4) old non_decreasing_snoc [of "reported st" ?new]
        by (auto simp: list_all_iff)
      have bd: "list_all (\<lambda>x. n_le (Fin 0) x \<and> n_le x ?new) ?reps"
        using old nn by simp
      have le: "i + 1 \<le> ntimes" using lt by simp
      have nd': "non_decreasing (reported ?st')" using nd by simp
      have bd': "list_all (\<lambda>x. n_le (Fin 0) x \<and> n_le x ?new) (reported ?st')"
        using bd by simp
      from "1.IH" [OF lt w Inr kab [symmetric] refl run le "1.prems"(3) nd' bd']
      show ?thesis .
    qed
  qed
qed

lemma abwalk_progress_monotone:
  assumes "abwalkVSpJS_run rnd g s t v ntimes = Some (reps, out)"
  shows "non_decreasing reps \<and> list_all in_percent_range reps"
proof (cases "build_adjacency (replicate (nodes g) []) (edges g)")
  case (Inl e)
  with assms have "reps = []" by (simp add: abwalkVSpJS_run_def Let_def)
  then show ?thesis by simp
next
  case (Inr adj)
  let ?st0 = "\<lparr>draws = 0, hits_of_s = 0, hits_of_t = 0, reported = []\<rparr>"
  from assms Inr obtain res1 where
    r1: "walks_from adj rnd s t v s ntimes 0 0 ?st0 = Some res1"
    by (auto simp: abwalkVSpJS_run_def Let_def split: option.splits)
  have p1: "non_decreasing (case res1 of Inl (e, reps) \<Rightarrow> reps | Inr st' \<Rightarrow> reported st')
     \<and> list_all (\<lambda>x. n_le (Fin 0) x \<and> n_le x (Fin (0 + 50)))
          (case res1 of Inl (e, reps) \<Rightarrow> reps | Inr st' \<Rightarrow> reported st')"
    by (rule walks_from_progress [OF r1]) simp_all
  show ?thesis
  proof (cases res1)
    case (Inl x)
    with assms Inr r1 have "reps = (case res1 of Inl (e, reps) \<Rightarrow> reps | Inr st' \<Rightarrow> reported st')"
      by (auto simp: abwalkVSpJS_run_def Let_def split: prod.splits)
    with p1 show ?thesis
      by (auto simp: in_percent_range_def list_all_iff intro: n_le_Fin_mono)
  next
    case ws: (Inr ws)
    let ?st1 = "\<lparr>draws = draws ws, hits_of_s = 0, hits_of_t = 0, reported = reported ws\<rparr>"
    from assms Inr r1 ws obtain res2 where
      r2: "walks_from adj rnd s t v t ntimes 50 0 ?st1 = Some res2"
      by (auto simp: abwalkVSpJS_run_def Let_def split: option.splits)
    have p2: "non_decreasing (case res2 of Inl (e, reps) \<Rightarrow> reps | Inr st' \<Rightarrow> reported st')
       \<and> list_all (\<lambda>x. n_le (Fin 0) x \<and> n_le x (Fin (50 + 50)))
            (case res2 of Inl (e, reps) \<Rightarrow> reps | Inr st' \<Rightarrow> reported st')"
      using p1 ws by (intro walks_from_progress [OF r2]) simp_all
    have "reps = (case res2 of Inl (e, reps) \<Rightarrow> reps | Inr st' \<Rightarrow> reported st')"
      using assms Inr r1 ws r2
      by (auto simp: abwalkVSpJS_run_def Let_def split: sum.splits prod.splits)
    with p2 show ?thesis
      by (auto simp: in_percent_range_def list_all_iff)
  qed
qed

lemma progress_values_posted:
  "progress_values (map (PROGRESS tid) reps @ [case out of Inr x \<Rightarrow> RESULT tid x
       | Inl e \<Rightarrow> ERROR tid (error_message e)]) = reps"
  by (induction reps) (auto split: sum.splits)

text \<open>
  Without a fallback the progress values behave: on the two JavaScript algorithms they
  never decrease and lie between 0 and 100.
\<close>

lemma js_progress_monotone:
  assumes "algorithm message = push_v_sp_js \<or> algorithm message = abwalk_v_sp_js"
    and "handleCompute env message = Some posted"
  shows "non_decreasing (progress_values posted)
     \<and> list_all in_percent_range (progress_values posted)"
  using assms(1)
proof
  assume a: "algorithm message = push_v_sp_js"
  with assms(2) obtain reps out where
    r: "pushVSpJS_run (graph_of message) (param_s (params message)) (param_t (params message))
          (param_v (params message)) (param_rmax (params message)) = Some (reps, out)"
    and p: "posted = map (PROGRESS (taskId message)) reps
        @ [case out of Inr x \<Rightarrow> RESULT (taskId message) x
           | Inl e \<Rightarrow> ERROR (taskId message) (error_message e)]"
    by (auto simp: handleCompute_def executePushVSpJS_def)
  from push_progress_monotone [OF r] show ?thesis
    unfolding p progress_values_posted .
next
  assume a: "algorithm message = abwalk_v_sp_js"
  with assms(2) obtain reps out where
    r: "abwalkVSpJS_run (math_random env) (graph_of message) (param_s (params message))
          (param_t (params message)) (param_v (params message)) (param_times (params message))
        = Some (reps, out)"
    and p: "posted = map (PROGRESS (taskId message)) reps
        @ [case out of Inr x \<Rightarrow> RESULT (taskId message) x
           | Inl e \<Rightarrow> ERROR (taskId message) (error_message e)]"
    by (auto simp: handleCompute_def executeAbwalkVSpJS_def)
  from abwalk_progress_monotone [OF r] show ?thesis
    unfolding p progress_values_posted .
qed

text \<open>On every path the terminal message is the last one posted, after all progress.\<close>

lemma terminal_message_last:
  assumes "handleCompute env message = Some posted"
  shows "\<exists>before final. posted = before @ [final]
     \<and> list_all is_progress before \<and> \<not> is_progress final"
proof -
  have js1: "list_all is_progress ms" if "executePushVSpJS message = Some (ms, out)" for ms out
    using that by (auto simp: executePushVSpJS_def list_all_iff)
  have js2: "list_all is_progress ms" if "executeAbwalkVSpJS rnd message = Some (ms, out)"
    for ms out rnd
    using that by (auto simp: executeAbwalkVSpJS_def list_all_iff)
  have w1: "list_all is_progress ms" if "executePushVSpWASM env message = Some (ms, out)"
    for ms out
    using that js1
    by (auto simp: executePushVSpWASM_def Let_def split: if_splits option.splits sum.splits)
  have w2: "list_all is_progress ms" if "executeAbwalkVSpWASM env message = Some (ms, out)"
    for ms out
    using that js2
    by (auto simp: executeAbwalkVSpWASM_def Let_def split: if_splits option.splits sum.splits)
  from assms obtain ms out where
    p: "posted = ms @ [case out of Inr x \<Rightarrow> RESULT (taskId message) x
           | Inl e \<Rightarrow> ERROR (taskId message) (error_message e)]"
    and ms: "list_all is_progress ms"
    using js1 js2 w1 w2
    by (cases "algorithm message") (auto simp: handleCompute_def)
  have "\<not> is_progress (case out of Inr x \<Rightarrow> RESULT (taskId message) x
           | Inl e \<Rightarrow> ERROR (taskId message) (error_message e))"
    by (cases out) simp_all
  with p ms show ?thesis by blast
qed

end
